theory Spec2Isabelle
  imports Complex_Main
begin

section \<open>Text model\<close>

text \<open>
  A Python \<^verbatim>\<open>str\<close> is a sequence of Unicode code points. A code point is modelled as a
  natural number and a string as a list of code points, so that the em-dash (U+2014) and
  the en-dash (U+2013) are single characters, as they are for \<^verbatim>\<open>re\<close> and
  \<^verbatim>\<open>str.strip\<close>.
\<close>

type_synonym uchar = nat
type_synonym ustr = "nat list"

definition ustr :: "string \<Rightarrow> ustr" where
  "ustr s = map of_char s"

definition SPACE :: uchar where "SPACE = 32"
definition COMMA :: uchar where "COMMA = 44"
definition PERIOD :: uchar where "PERIOD = 46"
definition SEMICOLON :: uchar where "SEMICOLON = 59"
definition EM_DASH :: uchar where "EM_DASH = 8212"
definition EN_DASH :: uchar where "EN_DASH = 8211"

text \<open>
  The characters matched by \<^verbatim>\<open>\s\<close> in a \<^verbatim>\<open>str\<close> pattern and removed by
  \<^verbatim>\<open>str.strip()\<close>: both use CPython's \<^verbatim>\<open>Py_UNICODE_ISSPACE\<close>.
\<close>

definition is_space :: "uchar \<Rightarrow> bool" where
  "is_space c \<longleftrightarrow>
     (9 \<le> c \<and> c \<le> 13) \<or> (28 \<le> c \<and> c \<le> 32) \<or> c = 133 \<or> c = 160 \<or> c = 5760 \<or>
     (8192 \<le> c \<and> c \<le> 8202) \<or> c = 8232 \<or> c = 8233 \<or> c = 8239 \<or> c = 8287 \<or>
     c = 12288"

text \<open>The character class \<^verbatim>\<open>[\<emdash>\<endash>]\<close> of the dash patterns.\<close>

definition is_dash :: "uchar \<Rightarrow> bool" where
  "is_dash c \<longleftrightarrow> c = EM_DASH \<or> c = EN_DASH"

text \<open>The character class \<^verbatim>\<open>[.!?]\<close> of the sentence boundary.\<close>

definition is_sentence_end :: "uchar \<Rightarrow> bool" where
  "is_sentence_end c \<longleftrightarrow> c = 46 \<or> c = 33 \<or> c = 63"

text \<open>The character class \<^verbatim>\<open>[,;]\<close> of the split of an oversized sentence.\<close>

definition is_comma_semi :: "uchar \<Rightarrow> bool" where
  "is_comma_semi c \<longleftrightarrow> c = COMMA \<or> c = SEMICOLON"

text \<open>\<^verbatim>\<open>s.strip()\<close>: whitespace removed at both ends.\<close>

definition strip :: "ustr \<Rightarrow> ustr" where
  "strip s = rev (dropWhile is_space (rev (dropWhile is_space s)))"

text \<open>\<^verbatim>\<open>' '.join(xs)\<close>.\<close>

fun join_sp :: "ustr list \<Rightarrow> ustr" where
  "join_sp [] = []"
| "join_sp [x] = x"
| "join_sp (x # y # zs) = x @ SPACE # join_sp (y # zs)"

section \<open>Regular-expression substitutions of the post-processor\<close>

text \<open>
  \<^verbatim>\<open>re.sub\<close> replaces the leftmost non-overlapping matches, scanning from the left; a
  quantifier is greedy. None of the patterns below matches the empty string.

  \<^verbatim>\<open>re.sub(r'\s*X\s*', repl, s)\<close> for a character class \<open>X\<close> without whitespace: at a
  position the match takes the whole whitespace run that starts there, needs a character
  of \<open>X\<close> next, and then takes the whole whitespace run that follows.
\<close>

function sub_ws_around :: "(uchar \<Rightarrow> bool) \<Rightarrow> ustr \<Rightarrow> ustr \<Rightarrow> ustr" where
  "sub_ws_around X repl [] = []"
| "sub_ws_around X repl (c # cs) =
     (case dropWhile is_space (c # cs) of
        [] \<Rightarrow> c # sub_ws_around X repl cs
      | d # ds \<Rightarrow>
          if X d then repl @ sub_ws_around X repl (dropWhile is_space ds)
          else c # sub_ws_around X repl cs)"
  by pat_completeness auto
termination
proof (relation "measure (\<lambda>(X, repl, s). length s)", goal_cases)
  case 1
  show ?case by simp
next
  case (2 X repl c cs)
  show ?case by simp
next
  case (3 X repl c cs d ds)
  have "length (d # ds) \<le> length (c # cs)"
    unfolding 3(1)[symmetric] by (rule length_dropWhile_le)
  moreover have "length (dropWhile is_space ds) \<le> length ds"
    by (rule length_dropWhile_le)
  ultimately show ?case by simp
next
  case (4 X repl c cs d ds)
  show ?case by simp
qed

text \<open>
  \<^verbatim>\<open>re.sub(r'a\s*b', repl, s)\<close> for two characters \<open>a\<close> and \<open>b\<close> that are not
  whitespace: an \<open>a\<close>, the whole whitespace run after it, and a \<open>b\<close>.
\<close>

function sub_pair :: "uchar \<Rightarrow> uchar \<Rightarrow> ustr \<Rightarrow> ustr \<Rightarrow> ustr" where
  "sub_pair a b repl [] = []"
| "sub_pair a b repl (c # cs) =
     (if c = a then
        (case dropWhile is_space cs of
           [] \<Rightarrow> c # sub_pair a b repl cs
         | d # ds \<Rightarrow>
             if d = b then repl @ sub_pair a b repl ds
             else c # sub_pair a b repl cs)
      else c # sub_pair a b repl cs)"
  by pat_completeness auto
termination
proof (relation "measure (\<lambda>(a, b, repl, s). length s)", goal_cases)
  case (3 a b repl c cs d ds)
  have "length (d # ds) \<le> length cs"
    unfolding 3(2)[symmetric] by (rule length_dropWhile_le)
  then show ?case by simp
qed simp_all

text \<open>\<^verbatim>\<open>re.sub(r'[\<emdash>\<endash>]', ', ', s)\<close>: every dash on its own.\<close>

definition sub_dash :: "ustr \<Rightarrow> ustr" where
  "sub_dash s = concat (map (\<lambda>c. if is_dash c then [COMMA, SPACE] else [c]) s)"

text \<open>\<^verbatim>\<open>re.sub(r'\s+', ' ', s)\<close>: every whitespace run becomes one space.\<close>

function sub_ws :: "ustr \<Rightarrow> ustr" where
  "sub_ws [] = []"
| "sub_ws (c # cs) =
     (if is_space c then SPACE # sub_ws (dropWhile is_space cs) else c # sub_ws cs)"
  by pat_completeness auto
termination
  by (relation "measure length") (auto simp: less_Suc_eq_le length_dropWhile_le)

section \<open>Post-processor\<close>

text \<open>
  \<^verbatim>\<open>humanize_output(self, text)\<close>; the argument \<open>rd\<close> is
  \<^verbatim>\<open>self.settings["remove_dashes"]\<close>.
\<close>

definition remove_dashes_steps :: "ustr \<Rightarrow> ustr" where
  "remove_dashes_steps s =
     sub_pair COMMA PERIOD [PERIOD]
       (sub_ws_around (\<lambda>c. c = COMMA) [COMMA, SPACE]
         (sub_pair COMMA COMMA [COMMA]
           (sub_dash
             (sub_ws_around is_dash [COMMA, SPACE] s))))"

definition humanize_output :: "bool \<Rightarrow> ustr \<Rightarrow> ustr" where
  "humanize_output rd text =
     strip (sub_ws (if rd then remove_dashes_steps text else text))"

section \<open>Chunker\<close>

text \<open>
  \<^verbatim>\<open>re.split(r'(?<=[.!?])\s+', text)\<close>: a match is a whole whitespace run that comes
  right after a sentence-final character; the pieces between the matches are returned.
  \<open>acc\<close> is the piece read so far.
\<close>

function re_split_sentences :: "ustr \<Rightarrow> ustr \<Rightarrow> ustr list" where
  "re_split_sentences acc [] = [acc]"
| "re_split_sentences acc (c # cs) =
     (if is_sentence_end c \<and> cs \<noteq> [] \<and> is_space (hd cs)
      then (acc @ [c]) # re_split_sentences [] (dropWhile is_space cs)
      else re_split_sentences (acc @ [c]) cs)"
  by pat_completeness auto
termination
  by (relation "measure (\<lambda>(acc, s). length s)") (auto simp: less_Suc_eq_le length_dropWhile_le)

text \<open>
  \<^verbatim>\<open>re.split(r'[,;]\s+', sentence)\<close>: a match is a comma or semicolon together with the
  whole, non-empty whitespace run after it.
\<close>

function re_split_parts :: "ustr \<Rightarrow> ustr \<Rightarrow> ustr list" where
  "re_split_parts acc [] = [acc]"
| "re_split_parts acc (c # cs) =
     (if is_comma_semi c \<and> cs \<noteq> [] \<and> is_space (hd cs)
      then acc # re_split_parts [] (dropWhile is_space cs)
      else re_split_parts (acc @ [c]) cs)"
  by pat_completeness auto
termination
  by (relation "measure (\<lambda>(acc, s). length s)") (auto simp: less_Suc_eq_le length_dropWhile_le)

text \<open>The task prefix of every text handed to the tokenizer and to the model.\<close>

definition PREFIX :: ustr where
  "PREFIX = ustr ''paraphraser: ''"

text \<open>
  The tokenizer is an external collaborator: \<open>tok s\<close> stands for
  \<^verbatim>\<open>len(self.tokenizer.encode(s, add_special_tokens=True))\<close>.
\<close>

type_synonym tokenizer = "ustr \<Rightarrow> nat"

text \<open>
  \<^verbatim>\<open>[s.strip() for s in sentences if s.strip()]\<close> after the sentence split.
\<close>

definition sentences_of :: "ustr \<Rightarrow> ustr list" where
  "sentences_of text = filter (\<lambda>s. s \<noteq> []) (map strip (re_split_sentences [] text))"

text \<open>
  The loop \<^verbatim>\<open>for sentence in sentences\<close> of \<^verbatim>\<open>split_into_chunks\<close> with its three
  variables \<^verbatim>\<open>chunks\<close>, \<^verbatim>\<open>current_chunk\<close> and \<^verbatim>\<open>current_tokens\<close>, and the
  statement after the loop that adds the remaining chunk.
\<close>

fun pack :: "tokenizer \<Rightarrow> ustr list \<Rightarrow> ustr list \<Rightarrow> ustr list \<Rightarrow> nat \<Rightarrow> ustr list" where
  "pack tok [] chunks current_chunk current_tokens =
     (if current_chunk \<noteq> [] then chunks @ [join_sp current_chunk] else chunks)"
| "pack tok (sentence # rest) chunks current_chunk current_tokens =
     (let num_tokens = tok (PREFIX @ sentence) in
      if num_tokens > 60 then
        (let parts = re_split_parts [] sentence in
         if current_chunk \<noteq> []
         then pack tok rest ((chunks @ [join_sp current_chunk]) @ parts) [] 0
         else pack tok rest (chunks @ parts) current_chunk current_tokens)
      else if current_tokens + num_tokens > 60
        then pack tok rest (chunks @ [join_sp current_chunk]) [sentence] num_tokens
        else pack tok rest chunks (current_chunk @ [sentence]) (current_tokens + num_tokens))"

definition split_into_chunks :: "tokenizer \<Rightarrow> ustr \<Rightarrow> ustr list" where
  "split_into_chunks tok text = pack tok (sentences_of text) [] [] 0"

section \<open>Settings\<close>

record settings =
  custom_passes :: int
  remove_dashes :: bool
  use_custom_passes :: bool
  strength :: ustr
  save_intermediate :: bool
  intermediate_format :: ustr
  highlight_paraphraser :: bool
  highlight_intensity :: int

text \<open>The defaults of \<^verbatim>\<open>TextHumanizerApp.__init__\<close>.\<close>

definition default_settings :: settings where
  "default_settings =
     \<lparr>custom_passes = 1, remove_dashes = True, use_custom_passes = False,
      strength = ustr ''High'', save_intermediate = True,
      intermediate_format = ustr ''json'', highlight_paraphraser = True,
      highlight_intensity = 50\<rparr>"

text \<open>The values offered by the strength selector of the main window.\<close>

definition strength_values :: "ustr list" where
  "strength_values = [ustr ''Standard'', ustr ''High'', ustr ''Maximum'']"

text \<open>
  The closure \<^verbatim>\<open>update_passes\<close> of the settings window, bound to the passes entry.
  \<open>isdigit\<close> is \<^verbatim>\<open>str.isdigit\<close> and \<open>to_int\<close> is \<^verbatim>\<open>int\<close> on a string, with
  \<open>None\<close> for the \<^verbatim>\<open>ValueError\<close> that the closure catches; \<open>entry\<close> is the text of
  the entry.
\<close>

definition update_passes ::
  "(ustr \<Rightarrow> bool) \<Rightarrow> (ustr \<Rightarrow> int option) \<Rightarrow> ustr \<Rightarrow> settings \<Rightarrow> settings" where
  "update_passes isdigit to_int entry st =
     (let v = strip entry in
      if v \<noteq> [] \<and> isdigit v then
        (case to_int v of
           None \<Rightarrow> st
         | Some passes \<Rightarrow> if passes > 0 then st\<lparr>custom_passes := passes\<rparr> else st)
      else st)"

definition toggle_custom_passes :: "bool \<Rightarrow> settings \<Rightarrow> settings" where
  "toggle_custom_passes is_enabled st = st\<lparr>use_custom_passes := is_enabled\<rparr>"

definition update_strength :: "ustr \<Rightarrow> settings \<Rightarrow> settings" where
  "update_strength v st = st\<lparr>strength := v\<rparr>"

definition update_dash :: "bool \<Rightarrow> settings \<Rightarrow> settings" where
  "update_dash b st = st\<lparr>remove_dashes := b\<rparr>"

definition update_intermediate :: "bool \<Rightarrow> settings \<Rightarrow> settings" where
  "update_intermediate b st = st\<lparr>save_intermediate := b\<rparr>"

definition update_format :: "ustr \<Rightarrow> settings \<Rightarrow> settings" where
  "update_format f st = st\<lparr>intermediate_format := f\<rparr>"

definition update_highlight :: "bool \<Rightarrow> settings \<Rightarrow> settings" where
  "update_highlight b st = st\<lparr>highlight_paraphraser := b\<rparr>"

definition update_highlight_intensity :: "int \<Rightarrow> settings \<Rightarrow> settings" where
  "update_highlight_intensity i st = st\<lparr>highlight_intensity := i\<rparr>"

text \<open>
  The settings that the user interface can produce: the defaults, changed by the
  callbacks above. The strength callback receives one of the selector's values.
\<close>

inductive reachable :: "settings \<Rightarrow> bool" where
  reach_init: "reachable default_settings"
| reach_passes: "reachable st \<Longrightarrow> reachable (update_passes isdigit to_int entry st)"
| reach_toggle: "reachable st \<Longrightarrow> reachable (toggle_custom_passes b st)"
| reach_strength:
    "reachable st \<Longrightarrow> v \<in> set strength_values \<Longrightarrow> reachable (update_strength v st)"
| reach_dash: "reachable st \<Longrightarrow> reachable (update_dash b st)"
| reach_intermediate: "reachable st \<Longrightarrow> reachable (update_intermediate b st)"
| reach_format: "reachable st \<Longrightarrow> reachable (update_format f st)"
| reach_highlight: "reachable st \<Longrightarrow> reachable (update_highlight b st)"
| reach_intensity: "reachable st \<Longrightarrow> reachable (update_highlight_intensity i st)"

section \<open>Pass controller\<close>

text \<open>The exceptions that \<^verbatim>\<open>_process_text\<close> can catch.\<close>

datatype exn =
    KeyError ustr
  | IndexError
  | UnboundLocalError
  | ClientError ustr

text \<open>
  Two texts belong to the Python interpreter and not to the program: \<^verbatim>\<open>repr\<close> of a
  string, which is the text of a \<^verbatim>\<open>KeyError\<close> (the quote it chooses and what it
  escapes depend on the key and on Unicode tables), and the text of an
  \<^verbatim>\<open>UnboundLocalError\<close>, which depends on the version. They are parameters.
\<close>

record python_texts =
  py_repr :: "ustr \<Rightarrow> ustr"
  unbound_local_text :: ustr

text \<open>\<^verbatim>\<open>str(e)\<close>. An error of the generation client carries its own message.\<close>

fun str_exn :: "python_texts \<Rightarrow> exn \<Rightarrow> ustr" where
  "str_exn py (KeyError k) = py_repr py k"
| "str_exn py IndexError = ustr ''list index out of range''"
| "str_exn py UnboundLocalError = unbound_local_text py"
| "str_exn py (ClientError m) = m"

text \<open>\<^verbatim>\<open>f"Error during processing:\n{str(e)}"\<close>.\<close>

definition error_msg :: "python_texts \<Rightarrow> exn \<Rightarrow> ustr" where
  "error_msg py e = ustr ''Error during processing:'' @ [10] @ str_exn py e"

text \<open>
  The three messages given to \<^verbatim>\<open>_update_progress\<close>, with the numbers that the
  f-strings format.
\<close>

datatype label =
    Processing_with int
  | Processing_chunk int int
  | Complete

text \<open>
  The calls that the worker schedules on the main thread with \<^verbatim>\<open>self.root.after\<close>:
  \<^verbatim>\<open>_update_progress(current, total, message)\<close> and \<^verbatim>\<open>_update_output(text, success)\<close>.
\<close>

datatype event =
    Update_progress int int label
  | Update_output ustr bool

text \<open>
  The generation client is an external collaborator: tokenizing the prefixed text,
  \<^verbatim>\<open>self.model.generate\<close> and \<^verbatim>\<open>batch_decode\<close>. \<open>client n text beams penalty\<close> is
  the answer to the call number \<open>n\<close> of a run (counted from 0): the decoded sequences, or
  \<open>Inl m\<close> when the call raises an exception with message \<open>m\<close>.
\<close>

type_synonym client = "nat \<Rightarrow> ustr \<Rightarrow> nat \<Rightarrow> real \<Rightarrow> ustr + ustr list"

record chunk_data =
  original :: ustr
  outputs :: "ustr list list"

text \<open>
  The part of the application object that a run reads and writes
  (\<^verbatim>\<open>self.intermediate_outputs\<close>, \<^verbatim>\<open>self.all_outputs\<close>), with two logs of what the
  run does to its surroundings: the scheduled calls, and the texts handed to the
  generation client, both in order.
\<close>

record app_state =
  intermediate_outputs :: "chunk_data list"
  all_outputs :: "ustr list"
  events :: "event list"
  prompts :: "ustr list"

definition schedule :: "event \<Rightarrow> app_state \<Rightarrow> app_state" where
  "schedule ev w = w\<lparr>events := events w @ [ev]\<rparr>"

text \<open>\<^verbatim>\<open>{"Standard": 1, "High": 1, "Maximum": 2}\<close>.\<close>

definition passes_table :: "ustr \<rightharpoonup> int" where
  "passes_table = map_of [(ustr ''Standard'', 1), (ustr ''High'', 1), (ustr ''Maximum'', 2)]"

text \<open>The pass count of a run: the custom value if enabled, else the table's.\<close>

definition determine_passes :: "settings \<Rightarrow> exn + int" where
  "determine_passes st =
     (if use_custom_passes st then Inr (custom_passes st)
      else (case passes_table (strength st) of
              None \<Rightarrow> Inl (KeyError (strength st))
            | Some p \<Rightarrow> Inr p))"

text \<open>The pair \<^verbatim>\<open>(num_beams, repetition_penalty)\<close> of a strength.\<close>

definition beam_params :: "ustr \<Rightarrow> nat \<times> real" where
  "beam_params s =
     (if s = ustr ''Standard'' then (4, 10)
      else if s = ustr ''High'' then (8, 12)
      else (10, 15))"

text \<open>
  The values that stay fixed while a run iterates over chunks and passes.
\<close>

record run_params =
  num_beams :: nat
  repetition_penalty :: real
  passes :: int
  total_chunks :: int

text \<open>
  The local variables that change during the passes of one chunk:
  \<^verbatim>\<open>processed_chunk\<close>, \<^verbatim>\<open>chunk_data['outputs']\<close>, \<^verbatim>\<open>chunk_counter\<close> and
  \<^verbatim>\<open>paraphrases\<close>, which is unbound (\<open>None\<close>) until the first pass assigns it. The
  counter starts at 0 and is only ever incremented, so it is a natural number.
\<close>

type_synonym pass_locals = "ustr \<times> ustr list list \<times> nat \<times> ustr list option"

text \<open>The body of \<^verbatim>\<open>for pass_num in range(passes)\<close>.\<close>

definition pass_body ::
  "client \<Rightarrow> settings \<Rightarrow> run_params \<Rightarrow> int \<Rightarrow> pass_locals \<Rightarrow> app_state \<Rightarrow>
   (exn + pass_locals) \<times> app_state" where
  "pass_body cl st rp pass_num loc w =
     (case loc of (processed_chunk, outs, chunk_counter, paraphrases) \<Rightarrow>
      let w1 = schedule (Update_progress (int chunk_counter) (total_chunks rp)
                  (Processing_chunk (int chunk_counter + 1) (total_chunks rp))) w;
          prefixed_text = PREFIX @ processed_chunk;
          w2 = w1\<lparr>prompts := prompts w1 @ [prefixed_text]\<rparr>
      in case cl chunk_counter prefixed_text (num_beams rp) (repetition_penalty rp) of
           Inl m \<Rightarrow> (Inl (ClientError m), w2)
         | Inr decoded \<Rightarrow>
             let ps = map (humanize_output (remove_dashes st)) decoded;
                 outs' = (if save_intermediate st then outs @ [ps] else outs)
             in if pass_num < passes rp - 1 then
                  (case ps of
                     [] \<Rightarrow> (Inl IndexError, w2)
                   | p0 # _ \<Rightarrow> (Inr (p0, outs', chunk_counter + 1, Some ps), w2))
                else (Inr (processed_chunk, outs', chunk_counter + 1, Some ps), w2))"

text \<open>The loop over the pass numbers; an exception leaves it at once.\<close>

fun pass_loop ::
  "client \<Rightarrow> settings \<Rightarrow> run_params \<Rightarrow> int list \<Rightarrow> pass_locals \<Rightarrow> app_state \<Rightarrow>
   (exn + pass_locals) \<times> app_state" where
  "pass_loop cl st rp [] loc w = (Inr loc, w)"
| "pass_loop cl st rp (pass_num # rest) loc w =
     (case pass_body cl st rp pass_num loc w of
        (Inl e, w') \<Rightarrow> (Inl e, w')
      | (Inr loc', w') \<Rightarrow> pass_loop cl st rp rest loc' w')"

text \<open>\<^verbatim>\<open>range(passes)\<close>: empty when \<open>passes\<close> is not positive.\<close>

definition py_range :: "int \<Rightarrow> int list" where
  "py_range n = map int [0..<nat n]"

text \<open>
  \<^verbatim>\<open>for i, paraphrase in enumerate(paraphrases): all_versions[i].append(paraphrase)\<close>;
  \<open>None\<close> is the \<^verbatim>\<open>IndexError\<close> of a paraphrase without a version list.
\<close>

fun append_versions :: "ustr list list \<Rightarrow> ustr list \<Rightarrow> ustr list list option" where
  "append_versions vs [] = Some vs"
| "append_versions [] (p # ps) = None"
| "append_versions (v # vs) (p # ps) = map_option ((#) (v @ [p])) (append_versions vs ps)"

text \<open>
  The local variables that live across the chunks: \<^verbatim>\<open>chunk_counter\<close>,
  \<^verbatim>\<open>paraphrases\<close> and \<^verbatim>\<open>all_versions\<close>.
\<close>

type_synonym chunk_locals = "nat \<times> ustr list option \<times> ustr list list"

text \<open>The loop \<^verbatim>\<open>for chunk_index, chunk in enumerate(chunks)\<close>.\<close>

fun chunk_loop ::
  "client \<Rightarrow> settings \<Rightarrow> run_params \<Rightarrow> ustr list \<Rightarrow> chunk_locals \<Rightarrow> app_state \<Rightarrow>
   (exn + chunk_locals) \<times> app_state" where
  "chunk_loop cl st rp [] loc w = (Inr loc, w)"
| "chunk_loop cl st rp (chunk # rest) loc w =
     (case loc of (chunk_counter, paraphrases, all_versions) \<Rightarrow>
      case pass_loop cl st rp (py_range (passes rp)) (chunk, [], chunk_counter, paraphrases) w of
        (Inl e, w') \<Rightarrow> (Inl e, w')
      | (Inr (processed_chunk, outs, chunk_counter', paraphrases'), w') \<Rightarrow>
          let w'' = (if save_intermediate st
                     then w'\<lparr>intermediate_outputs :=
                            intermediate_outputs w' @ [\<lparr>original = chunk, outputs = outs\<rparr>]\<rparr>
                     else w')
          in case paraphrases' of
               None \<Rightarrow> (Inl UnboundLocalError, w'')
             | Some ps \<Rightarrow>
                 (case append_versions all_versions ps of
                    None \<Rightarrow> (Inl IndexError, w'')
                  | Some all_versions' \<Rightarrow>
                      chunk_loop cl st rp rest (chunk_counter', paraphrases', all_versions') w''))"

text \<open>The \<^verbatim>\<open>try\<close> block of \<^verbatim>\<open>_process_text\<close>.\<close>

definition process_body ::
  "client \<Rightarrow> tokenizer \<Rightarrow> settings \<Rightarrow> ustr \<Rightarrow> app_state \<Rightarrow> (exn + unit) \<times> app_state" where
  "process_body cl tok st input_content w =
     (case determine_passes st of
        Inl e \<Rightarrow> (Inl e, w)
      | Inr n \<Rightarrow>
          let chunks = split_into_chunks tok input_content;
              total = int (length chunks) * n;
              rp = \<lparr>num_beams = fst (beam_params (strength st)),
                    repetition_penalty = snd (beam_params (strength st)),
                    passes = n, total_chunks = total\<rparr>;
              w1 = schedule (Update_progress 0 total (Processing_with n)) w
          in case chunk_loop cl st rp chunks (0, None, [[], [], [], []]) w1 of
               (Inl e, w2) \<Rightarrow> (Inl e, w2)
             | (Inr (chunk_counter, paraphrases, all_versions), w2) \<Rightarrow>
                 let w3 = w2\<lparr>all_outputs := map join_sp all_versions\<rparr>;
                     w4 = schedule (Update_progress total total Complete) w3
                 in (case all_outputs w4 of
                       [] \<Rightarrow> (Inl IndexError, w4)
                     | first # _ \<Rightarrow> (Inr (), schedule (Update_output first True) w4)))"

text \<open>\<^verbatim>\<open>_process_text\<close>: the \<^verbatim>\<open>try\<close> block and its \<^verbatim>\<open>except Exception\<close> handler.\<close>

definition process_text ::
  "python_texts \<Rightarrow> client \<Rightarrow> tokenizer \<Rightarrow> settings \<Rightarrow> ustr \<Rightarrow> app_state \<Rightarrow> app_state" where
  "process_text py cl tok st input_content w =
     (case process_body cl tok st input_content w of
        (Inl e, w') \<Rightarrow> schedule (Update_output (error_msg py e) False) w'
      | (Inr _, w') \<Rightarrow> w')"

text \<open>
  \<^verbatim>\<open>humanize_text\<close>: the two warnings that end the request before any work, and the
  run itself (the worker thread is run to its end). \<open>model\<close> is \<open>None\<close> until the model
  has been loaded.
\<close>

datatype warning = No_Input | Model_Not_Loaded

definition humanize_text ::
  "python_texts \<Rightarrow> client option \<Rightarrow> tokenizer \<Rightarrow> settings \<Rightarrow> ustr \<Rightarrow> app_state \<Rightarrow>
   warning + app_state" where
  "humanize_text py model tok st text w =
     (let input_content = strip text in
      if input_content = [] then Inl No_Input
      else (case model of
              None \<Rightarrow> Inl Model_Not_Loaded
            | Some cl \<Rightarrow>
                Inr (process_text py cl tok st input_content
                       (w\<lparr>intermediate_outputs := []\<rparr>))))"

section \<open>Export of the intermediate outputs\<close>

text \<open>\<^verbatim>\<open>str(n)\<close> for a number in an f-string, and \<^verbatim>\<open>str(b)\<close> for a truth value.\<close>

function str_nat :: "nat \<Rightarrow> ustr" where
  "str_nat n = (if n < 10 then [48 + n] else str_nat (n div 10) @ [48 + n mod 10])"
  by pat_completeness auto
termination
  by (relation "measure id") auto

declare str_nat.simps [simp del]

definition str_int :: "int \<Rightarrow> ustr" where
  "str_int i = (if i < 0 then 45 # str_nat (nat (- i)) else str_nat (nat i))"

definition str_bool :: "bool \<Rightarrow> ustr" where
  "str_bool b = (if b then ustr ''True'' else ustr ''False'')"

text \<open>The dictionary \<^verbatim>\<open>output_data\<close> that is dumped as JSON.\<close>

record json_doc =
  js_timestamp :: ustr
  js_settings :: settings
  js_intermediate_outputs :: "chunk_data list"
  js_final_outputs :: "ustr list"

definition json_export :: "ustr \<Rightarrow> settings \<Rightarrow> app_state \<Rightarrow> json_doc" where
  "json_export timestamp st w =
     \<lparr>js_timestamp = timestamp, js_settings = st,
      js_intermediate_outputs = intermediate_outputs w,
      js_final_outputs = all_outputs w\<rparr>"

text \<open>
  The text form, as the list of the strings given to \<^verbatim>\<open>f.write\<close>, in order.
  \<open>rule_line n c\<close> is \<^verbatim>\<open>c * n + "\n"\<close>.
\<close>

definition rule_line :: "nat \<Rightarrow> uchar \<Rightarrow> ustr" where
  "rule_line n c = replicate n c @ [10]"

definition txt_version_line :: "nat \<times> ustr \<Rightarrow> ustr" where
  "txt_version_line jo =
     ustr ''    Version '' @ str_nat (fst jo + 1) @ ustr '': '' @ take 100 (snd jo) @
     ustr ''...'' @ [10]"

definition txt_pass :: "nat \<times> ustr list \<Rightarrow> ustr list" where
  "txt_pass po =
     ([10] @ ustr ''  Pass '' @ str_nat (fst po + 1) @ ustr '':'' @ [10]) #
     map txt_version_line (enumerate 0 (snd po))"

definition txt_chunk :: "nat \<times> ustr list list \<Rightarrow> ustr list" where
  "txt_chunk ic =
     [ustr ''CHUNK '' @ str_nat (fst ic + 1) @ ustr '':'' @ [10], rule_line 30 45] @
     concat (map txt_pass (enumerate 0 (snd ic))) @ [[10]]"

definition txt_final :: "nat \<times> ustr \<Rightarrow> ustr list" where
  "txt_final io =
     [ustr ''Version '' @ str_nat (fst io + 1) @ ustr '':'' @ [10], rule_line 30 45,
      snd io @ [10, 10]]"

definition txt_header :: "ustr \<Rightarrow> ustr \<Rightarrow> int \<Rightarrow> bool \<Rightarrow> bool \<Rightarrow> ustr list" where
  "txt_header timestamp strength_v custom_passes_v use_custom_v remove_dashes_v =
     [ustr ''Intermediate Outputs - '' @ timestamp @ [10], rule_line 50 61 @ [10],
      ustr ''SETTINGS:'' @ [10],
      ustr ''  Strength: '' @ strength_v @ [10],
      ustr ''  Custom Passes: '' @ str_int custom_passes_v @ [10],
      ustr ''  Use Custom Passes: '' @ str_bool use_custom_v @ [10],
      ustr ''  Remove Dashes: '' @ str_bool remove_dashes_v @ [10, 10],
      ustr ''INTERMEDIATE OUTPUTS:'' @ [10], rule_line 50 61 @ [10]]"

definition txt_export :: "ustr \<Rightarrow> settings \<Rightarrow> app_state \<Rightarrow> ustr list" where
  "txt_export timestamp st w =
     txt_header timestamp (strength st) (custom_passes st) (use_custom_passes st)
       (remove_dashes st) @
     concat (map txt_chunk (enumerate 0 (map outputs (intermediate_outputs w)))) @
     [[10] @ ustr ''FINAL OUTPUTS:'' @ [10], rule_line 50 61 @ [10]] @
     concat (map txt_final (enumerate 0 (all_outputs w)))"

text \<open>
  \<^verbatim>\<open>save_intermediate_outputs\<close>: nothing is written when there are no intermediate
  outputs or when the file dialog is cancelled (\<open>chosen\<close> is false).
\<close>

datatype export = Json_file json_doc | Txt_file "ustr list"

definition save_intermediate_outputs ::
  "ustr \<Rightarrow> bool \<Rightarrow> settings \<Rightarrow> app_state \<Rightarrow> export option" where
  "save_intermediate_outputs timestamp chosen st w =
     (if intermediate_outputs w = [] then None
      else if \<not> chosen then None
      else if intermediate_format st = ustr ''json''
        then Some (Json_file (json_export timestamp st w))
        else Some (Txt_file (txt_export timestamp st w)))"

text \<open>The content of the text file: the strings written, one after the other.\<close>

definition txt_file :: "ustr \<Rightarrow> settings \<Rightarrow> app_state \<Rightarrow> ustr" where
  "txt_file timestamp st w = concat (txt_export timestamp st w)"

section \<open>Reading the text report\<close>

text \<open>
  What a reader of the text report can take from it: the timestamp, the four settings
  that are printed, the candidates of every chunk and pass as far as they are printed, and
  the final outputs.
\<close>

record flat_content =
  fc_timestamp :: ustr
  fc_strength :: ustr
  fc_custom_passes :: int
  fc_use_custom_passes :: bool
  fc_remove_dashes :: bool
  fc_candidates :: "ustr list list list"
  fc_final_outputs :: "ustr list"

text \<open>The lines of a text, split at the line feeds; \<open>acc\<close> is the line read so far.\<close>

fun lines_from :: "ustr \<Rightarrow> ustr \<Rightarrow> ustr list" where
  "lines_from acc [] = (if acc = [] then [] else [acc])"
| "lines_from acc (c # cs) =
     (if c = 10 then acc # lines_from [] cs else lines_from (acc @ [c]) cs)"

definition is_digit :: "uchar \<Rightarrow> bool" where
  "is_digit c \<longleftrightarrow> 48 \<le> c \<and> c \<le> 57"

definition read_nat :: "ustr \<Rightarrow> nat" where
  "read_nat s = foldl (\<lambda>a c. 10 * a + (c - 48)) 0 s"

definition read_int :: "ustr \<Rightarrow> int" where
  "read_int s =
     (case s of [] \<Rightarrow> 0 | c # r \<Rightarrow> if c = 45 then - int (read_nat r) else int (read_nat s))"

text \<open>
  A version line is indented by four spaces; its text follows the label, the number, a
  colon and a space, and ends before the three dots.
\<close>

definition read_version :: "ustr \<Rightarrow> ustr" where
  "read_version l =
     (let r = drop 2 (dropWhile is_digit (drop 12 l)) in take (length r - 3) r)"

definition is_version_line :: "ustr \<Rightarrow> bool" where
  "is_version_line l \<longleftrightarrow> take 4 l = ustr ''    ''"

text \<open>
  The passes of a chunk: each is an empty line, a heading that starts with \<^verbatim>\<open>  Pass\<close>,
  and its version lines. The result is the candidates read and the lines left over.
\<close>

function read_passes :: "ustr list \<Rightarrow> ustr list list \<times> ustr list" where
  "read_passes (e # h # rest) =
     (if e = [] \<and> take 6 h = ustr ''  Pass''
      then (case read_passes (dropWhile is_version_line rest) of
              (ps, rem) \<Rightarrow> (map read_version (takeWhile is_version_line rest) # ps, rem))
      else ([], e # h # rest))"
| "read_passes [e] = ([], [e])"
| "read_passes [] = ([], [])"
  by pat_completeness auto
termination
  by (relation "measure length") (auto simp: less_Suc_eq_le intro: le_SucI length_dropWhile_le)

text \<open>
  The chunks: each is a heading that starts with \<^verbatim>\<open>CHUNK \<close>, a rule, its passes and an
  empty line.
\<close>

function read_chunks :: "ustr list \<Rightarrow> ustr list list list \<times> ustr list" where
  "read_chunks (h # r # rest) =
     (if take 6 h = ustr ''CHUNK ''
      then (case read_chunks (drop 1 (snd (read_passes rest))) of
              (cs, rem) \<Rightarrow> (fst (read_passes rest) # cs, rem))
      else ([], h # r # rest))"
| "read_chunks [h] = ([], [h])"
| "read_chunks [] = ([], [])"
  by pat_completeness auto
termination
proof (relation "measure length")
  show "wf (measure length)" by simp
next
  fix h r :: ustr and rest :: "ustr list"
  have shorter: "length (snd (read_passes ls)) \<le> length ls" for ls
  proof (induction ls rule: read_passes.induct)
    case (1 e h rest)
    show ?case
    proof (cases "e = [] \<and> take 6 h = ustr ''  Pass''")
      case True
      from 1[OF True]
      have "length (snd (read_passes (dropWhile is_version_line rest))) \<le> length rest"
        using length_dropWhile_le[of is_version_line rest] by linarith
      with True show ?thesis by (auto split: prod.splits)
    next
      case False
      then show ?thesis by auto
    qed
  qed simp_all
  have "length (drop 1 (snd (read_passes rest))) \<le> length rest"
    using shorter[of rest] by simp
  then show "(drop 1 (snd (read_passes rest)), h # r # rest) \<in> measure length" by simp
qed

text \<open>The final outputs: a heading, a rule, the text and an empty line for each.\<close>

fun read_finals :: "ustr list \<Rightarrow> ustr list" where
  "read_finals (h # r # t # e # rest) = t # read_finals rest"
| "read_finals _ = []"

text \<open>
  The report as it is read: twelve lines of header, of which the lines 0, 4, 5, 6 and 7
  carry the timestamp and the settings after their labels; then the chunks; then the four
  lines that open the final outputs; then the final outputs.
\<close>

definition read_flat :: "ustr \<Rightarrow> flat_content" where
  "read_flat file =
     (let ls = lines_from [] file;
          body = read_chunks (drop 12 ls)
      in \<lparr>fc_timestamp = drop 23 (ls ! 0),
          fc_strength = drop 12 (ls ! 4),
          fc_custom_passes = read_int (drop 17 (ls ! 5)),
          fc_use_custom_passes = (drop 21 (ls ! 6) = ustr ''True''),
          fc_remove_dashes = (drop 17 (ls ! 7) = ustr ''True''),
          fc_candidates = fst body,
          fc_final_outputs = read_finals (drop 4 (snd body))\<rparr>)"

text \<open>A text without a line feed.\<close>

definition one_line :: "ustr \<Rightarrow> bool" where
  "one_line s \<longleftrightarrow> 10 \<notin> set s"

text \<open>The lines of the report, for the proofs: the file is these lines, each ended by a line feed.\<close>

definition unlines :: "ustr list \<Rightarrow> ustr" where
  "unlines ls = concat (map (\<lambda>l. l @ [10]) ls)"

definition version_text :: "nat \<times> ustr \<Rightarrow> ustr" where
  "version_text jo =
     ustr ''    Version '' @ str_nat (fst jo + 1) @ ustr '': '' @ take 100 (snd jo) @ ustr ''...''"

definition pass_lines :: "nat \<times> ustr list \<Rightarrow> ustr list" where
  "pass_lines po =
     [[], ustr ''  Pass '' @ str_nat (fst po + 1) @ ustr '':''] @
     map version_text (enumerate 0 (snd po))"

definition chunk_lines :: "nat \<times> ustr list list \<Rightarrow> ustr list" where
  "chunk_lines ic =
     [ustr ''CHUNK '' @ str_nat (fst ic + 1) @ ustr '':'', replicate 30 45] @
     concat (map pass_lines (enumerate 0 (snd ic))) @ [[]]"

definition final_lines :: "nat \<times> ustr \<Rightarrow> ustr list" where
  "final_lines io =
     [ustr ''Version '' @ str_nat (fst io + 1) @ ustr '':'', replicate 30 45, snd io, []]"

definition header_lines :: "ustr \<Rightarrow> settings \<Rightarrow> ustr list" where
  "header_lines timestamp st =
     [ustr ''Intermediate Outputs - '' @ timestamp, replicate 50 61, [],
      ustr ''SETTINGS:'',
      ustr ''  Strength: '' @ strength st,
      ustr ''  Custom Passes: '' @ str_int (custom_passes st),
      ustr ''  Use Custom Passes: '' @ str_bool (use_custom_passes st),
      ustr ''  Remove Dashes: '' @ str_bool (remove_dashes st), [],
      ustr ''INTERMEDIATE OUTPUTS:'', replicate 50 61, []]"

definition final_heading :: "ustr list" where
  "final_heading = [[], ustr ''FINAL OUTPUTS:'', replicate 50 61, []]"

definition txt_lines :: "ustr \<Rightarrow> settings \<Rightarrow> app_state \<Rightarrow> ustr list" where
  "txt_lines timestamp st w =
     header_lines timestamp st @
     concat (map chunk_lines (enumerate 0 (map outputs (intermediate_outputs w)))) @
     final_heading @
     concat (map final_lines (enumerate 0 (all_outputs w)))"

section \<open>Auxiliary notions for the proofs\<close>

text \<open>
  A string in whitespace normal form: every whitespace character is a single space that
  is not followed by whitespace.
\<close>

fun ws_norm :: "ustr \<Rightarrow> bool" where
  "ws_norm [] = True"
| "ws_norm (c # r) =
     ((is_space c \<longrightarrow> c = SPACE \<and> (case r of [] \<Rightarrow> True | d # _ \<Rightarrow> \<not> is_space d)) \<and>
      ws_norm r)"


text \<open>The progress call scheduled at the start of unit \<open>k\<close> of a run.\<close>

definition unit_event :: "int \<Rightarrow> nat \<Rightarrow> event" where
  "unit_event T k = Update_progress (int k) T (Processing_chunk (int k + 1) T)"


text \<open>
  The post-processed candidates of the call number \<open>u\<close> on the prompt \<open>p\<close>; the empty
  list when the call raises.
\<close>

definition candidates :: "client \<Rightarrow> settings \<Rightarrow> run_params \<Rightarrow> nat \<Rightarrow> ustr \<Rightarrow> ustr list" where
  "candidates cl st rp u p =
     (case cl u p (num_beams rp) (repetition_penalty rp) of
        Inl _ \<Rightarrow> []
      | Inr decoded \<Rightarrow> map (humanize_output (remove_dashes st)) decoded)"


text \<open>The state after the progress call and the client call of a unit have been logged.\<close>

definition called :: "run_params \<Rightarrow> nat \<Rightarrow> ustr \<Rightarrow> app_state \<Rightarrow> app_state" where
  "called rp cc pc w =
     w\<lparr>events := events w @ [unit_event (total_chunks rp) cc],
       prompts := prompts w @ [PREFIX @ pc]\<rparr>"


text \<open>The state after the record of a chunk has been added to the store, if enabled.\<close>

definition stored :: "settings \<Rightarrow> ustr \<Rightarrow> ustr list list \<Rightarrow> app_state \<Rightarrow> app_state" where
  "stored st chunk outs w =
     (if save_intermediate st
      then w\<lparr>intermediate_outputs :=
             intermediate_outputs w @ [\<lparr>original = chunk, outputs = outs\<rparr>]\<rparr>
      else w)"


text \<open>
  The values that \<^verbatim>\<open>_process_text\<close> fixes before its first progress call, for the pass
  count \<open>n\<close>: the beam parameters of the strength, and the total number of units, which is
  the number of chunks times the pass count.
\<close>

definition run_params_of :: "tokenizer \<Rightarrow> settings \<Rightarrow> ustr \<Rightarrow> int \<Rightarrow> run_params" where
  "run_params_of tok st input_content n =
     \<lparr>num_beams = fst (beam_params (strength st)),
      repetition_penalty = snd (beam_params (strength st)),
      passes = n,
      total_chunks = int (length (split_into_chunks tok input_content)) * n\<rparr>"

text \<open>The texts handed to the generation client between the states \<open>w\<close> and \<open>w'\<close>.\<close>

definition new_prompts :: "app_state \<Rightarrow> app_state \<Rightarrow> ustr list" where
  "new_prompts w w' = drop (length (prompts w)) (prompts w')"

text \<open>
  A chain of prompts of one chunk, the first of them sent as call number \<open>cc\<close>: each
  prompt after the first is the prefix followed by the first post-processed candidate of
  the call before it.
\<close>

definition chained :: "client \<Rightarrow> settings \<Rightarrow> run_params \<Rightarrow> nat \<Rightarrow> ustr list \<Rightarrow> bool" where
  "chained cl st rp cc ps \<longleftrightarrow>
     (\<forall>k. k + 1 < length ps \<longrightarrow>
        candidates cl st rp (cc + k) (ps ! k) \<noteq> [] \<and>
        ps ! (k + 1) = PREFIX @ hd (candidates cl st rp (cc + k) (ps ! k)))"

text \<open>
  The layout of the chunks: a group of sentences packed into one chunk, or a sentence
  over the budget that is split at commas and semicolons.
\<close>

datatype item = Packed "ustr list" | Oversized ustr

fun render :: "item \<Rightarrow> ustr list" where
  "render (Packed ss) = [join_sp ss]"
| "render (Oversized s) = re_split_parts [] s"

fun sentences_in :: "item \<Rightarrow> ustr list" where
  "sentences_in (Packed ss) = ss"
| "sentences_in (Oversized s) = [s]"

text \<open>The sum of the token counts of sentences, each counted with the prefix.\<close>

definition tokens_of :: "tokenizer \<Rightarrow> ustr list \<Rightarrow> nat" where
  "tokens_of tok ss = sum_list (map (\<lambda>s. tok (PREFIX @ s)) ss)"

text \<open>
  A group fits when it is not empty and its counts sum to at most 60; a sentence is
  oversized when its own count is above 60.
\<close>

fun fits :: "tokenizer \<Rightarrow> item \<Rightarrow> bool" where
  "fits tok (Packed ss) \<longleftrightarrow> ss \<noteq> [] \<and> tokens_of tok ss \<le> 60"
| "fits tok (Oversized s) \<longleftrightarrow> 60 < tok (PREFIX @ s)"

text \<open>
  A layout is greedy when a group is followed by another group only if the first
  sentence of the second would have taken the first over the budget.
\<close>

fun greedy :: "tokenizer \<Rightarrow> item list \<Rightarrow> bool" where
  "greedy tok (Packed a # Packed b # r) \<longleftrightarrow>
     (b \<noteq> [] \<and> 60 < tokens_of tok a + tok (PREFIX @ hd b)) \<and> greedy tok (Packed b # r)"
| "greedy tok (x # y # r) \<longleftrightarrow> greedy tok (y # r)"
| "greedy tok _ \<longleftrightarrow> True"

text \<open>
  Sample collaborators for concrete runs: a client that answers every prompt with four
  variants of the text after the prefix; the mock of the specification's scenario, which
  answers every call with the same four strings, two of them with an em-dash; a client
  that raises at one call; a tokenizer that counts characters, and one that counts the
  characters after the prefix only; the texts of CPython 3.11 (with \<^verbatim>\<open>repr\<close> as it is
  for a key without quotes, backslashes or unprintable characters); \<^verbatim>\<open>str.isdigit\<close>
  and \<^verbatim>\<open>int\<close> restricted to ASCII digits; and the state of a freshly started
  application.
\<close>

definition sample_client :: client where
  "sample_client n text beams penalty =
     Inr (map (\<lambda>c. drop (length PREFIX) text @ [c]) [65, 66, 67, 68])"

definition dash_client :: client where
  "dash_client n text beams penalty =
     Inr [[65, 32, 8212, 32, 66, 46], [65, 8212, 66, 46], [120], [121]]"


definition sample_tokenizer :: tokenizer where
  "sample_tokenizer s = length s"

definition text_tokenizer :: tokenizer where
  "text_tokenizer s = length s - length PREFIX"

definition sample_texts :: python_texts where
  "sample_texts =
     \<lparr>py_repr = (\<lambda>k. [39] @ k @ [39]),
      unbound_local_text =
        ustr ''cannot access local variable '' @ [39] @ ustr ''paraphrases'' @ [39] @
        ustr '' where it is not associated with a value''\<rparr>"

definition ascii_isdigit :: "ustr \<Rightarrow> bool" where
  "ascii_isdigit s \<longleftrightarrow> s \<noteq> [] \<and> list_all (\<lambda>c. 48 \<le> c \<and> c \<le> 57) s"

definition ascii_int :: "ustr \<Rightarrow> int option" where
  "ascii_int s =
     (if ascii_isdigit s then Some (foldl (\<lambda>a c. 10 * a + int (c - 48)) 0 s) else None)"

definition initial_state :: app_state where
  "initial_state = \<lparr>intermediate_outputs = [], all_outputs = [], events = [], prompts = []\<rparr>"

text \<open>
  A client that answers: each of the calls number \<open>0\<close> to \<open>hi - 1\<close> returns, whatever the
  prompt, a list of at least one and at most four decoded texts.
\<close>

definition answers :: "client \<Rightarrow> run_params \<Rightarrow> nat \<Rightarrow> bool" where
  "answers cl rp hi \<longleftrightarrow>
     (\<forall>u p. u < hi \<longrightarrow>
        (\<exists>d. cl u p (num_beams rp) (repetition_penalty rp) = Inr d \<and> d \<noteq> [] \<and> length d \<le> 4))"

text \<open>
  The record \<^verbatim>\<open>chunk_data\<close> of chunk number \<open>i\<close> of a run whose prompts are \<open>ps\<close>: the chunk
  and, for every pass, the post-processed candidates of that pass.
\<close>

definition chunk_record ::
  "client \<Rightarrow> settings \<Rightarrow> run_params \<Rightarrow> ustr list \<Rightarrow> ustr list \<Rightarrow> nat \<Rightarrow> chunk_data" where
  "chunk_record cl st rp chunks ps i =
     \<lparr>original = chunks ! i,
      outputs = map (\<lambda>k. candidates cl st rp (i * nat (passes rp) + k)
                           (ps ! (i * nat (passes rp) + k)))
                  [0..<nat (passes rp)]\<rparr>"

text \<open>
  A token counter is subadditive when the count of two texts joined by a space, with the
  prefix, is at most the sum of their counts, each with the prefix.
\<close>

definition subadditive :: "tokenizer \<Rightarrow> bool" where
  "subadditive tok \<longleftrightarrow>
     (\<forall>a b. tok (PREFIX @ a @ SPACE # b) \<le> tok (PREFIX @ a) + tok (PREFIX @ b))"

text \<open>
  Sample inputs and settings for concrete runs: texts of two, five and four sentences; two
  sentences of 30 characters each; a sentence over the budget with two separators in a row;
  the settings after the strength selector is set to Maximum; and the settings after a
  number is typed into the passes entry and the custom-passes switch is turned on.
\<close>

definition two_sentences :: ustr where
  "two_sentences = ustr ''The quick brown fox jumps over it. A lazy dog sleeps under the tree.''"


definition short_sentences :: ustr where
  "short_sentences = ustr ''Go on. Stop it. Now go. Then rest.''"

definition long_sentences :: ustr where
  "long_sentences = ustr ''Aaaaaaaaa bbbbbbbbb ccccccccc. Ddddddddd eeeeeeeee fffffffff.''"

definition gapped_sentence :: ustr where
  "gapped_sentence = ustr ''One two three four five six seven eight nine, , ten eleven twelve.''"

definition maximum_settings :: settings where
  "maximum_settings = update_strength (ustr ''Maximum'') default_settings"

definition custom_settings :: "string \<Rightarrow> settings" where
  "custom_settings entry =
     toggle_custom_passes True (update_passes ascii_isdigit ascii_int (ustr entry) default_settings)"

text \<open>
  A sample export: a timestamp, and a state with the record of one chunk and one pass,
  one of whose candidates is 120 characters long, and four final outputs.
\<close>

definition sample_timestamp :: ustr where
  "sample_timestamp = ustr ''20240101_120000''"

definition sample_store :: "ustr \<Rightarrow> app_state" where
  "sample_store text =
     \<lparr>intermediate_outputs =
        [\<lparr>original = text,
          outputs = [[ustr ''Hi there.'', ustr ''Hello, you.'', replicate 120 97, ustr ''Hey.'']]\<rparr>],
      all_outputs = [ustr ''Hi there.'', ustr ''Hello, you.'', replicate 120 97, ustr ''Hey.''],
      events = [], prompts = []\<rparr>"

section \<open>Lemmas\<close>

lemmas char_defs =
  ustr_def is_space_def is_dash_def is_sentence_end_def is_comma_semi_def
  COMMA_def SPACE_def PERIOD_def SEMICOLON_def EM_DASH_def EN_DASH_def

lemma is_space_SPACE [simp]: "is_space SPACE"
  by (simp add: is_space_def SPACE_def)

lemma ws_norm_sub_ws: "ws_norm (sub_ws s)"
proof (induction s rule: sub_ws.induct)
  case 1
  show ?case by simp
next
  case (2 c cs)
  show ?case
  proof (cases "is_space c")
    case True
    have "case sub_ws (dropWhile is_space cs) of [] \<Rightarrow> True | d # _ \<Rightarrow> \<not> is_space d"
    proof (cases "dropWhile is_space cs")
      case Nil
      show ?thesis unfolding Nil by simp
    next
      case (Cons d ds)
      then have "\<not> is_space d" by (metis hd_dropWhile list.sel(1) list.distinct(1))
      then show ?thesis unfolding Cons by simp
    qed
    with True 2(1) show ?thesis by simp
  next
    case False
    with 2(2) show ?thesis by simp
  qed
qed

lemma sub_ws_fix: "ws_norm t \<Longrightarrow> sub_ws t = t"
proof (induction t)
  case Nil
  show ?case by simp
next
  case (Cons c r)
  show ?case
  proof (cases "is_space c")
    case True
    with Cons.prems have c: "c = SPACE" and r: "case r of [] \<Rightarrow> True | d # _ \<Rightarrow> \<not> is_space d"
      and n: "ws_norm r" by simp_all
    from r have "dropWhile is_space r = r" by (cases r) simp_all
    with True c Cons.IH[OF n] show ?thesis by simp
  next
    case False
    with Cons show ?thesis by simp
  qed
qed

lemma ws_norm_append_left: "ws_norm (a @ b) \<Longrightarrow> ws_norm a"
proof (induction a)
  case Nil
  show ?case by simp
next
  case (Cons c r)
  then show ?case by (cases r) (auto split: list.splits)
qed

lemma ws_norm_append_right: "ws_norm (a @ b) \<Longrightarrow> ws_norm b"
  by (induction a) auto

lemma ws_norm_strip: "ws_norm t \<Longrightarrow> ws_norm (strip t)"
proof -
  assume t: "ws_norm t"
  have "t = takeWhile is_space t @ dropWhile is_space t" by simp
  with t have d: "ws_norm (dropWhile is_space t)" by (metis ws_norm_append_right)
  let ?d = "dropWhile is_space t"
  have "rev ?d = takeWhile is_space (rev ?d) @ dropWhile is_space (rev ?d)" by simp
  then have "?d = rev (dropWhile is_space (rev ?d)) @ rev (takeWhile is_space (rev ?d))"
    by (metis rev_append rev_rev_ident)
  with d show ?thesis unfolding strip_def by (metis ws_norm_append_left)
qed

lemma dropWhile_hd_id: "xs = [] \<or> \<not> P (hd xs) \<Longrightarrow> dropWhile P xs = xs"
  by (cases xs) auto

lemma strip_strip: "strip (strip t) = strip t"
proof -
  define d where "d = dropWhile is_space t"
  define u where "u = dropWhile is_space (rev d)"
  have "rev d = takeWhile is_space (rev d) @ u" by (simp add: u_def)
  then have d: "d = rev u @ rev (takeWhile is_space (rev d))"
    by (metis rev_append rev_rev_ident)
  have "rev u = [] \<or> \<not> is_space (hd (rev u))"
  proof (cases "rev u = []")
    case True
    then show ?thesis by simp
  next
    case False
    with d have "hd d = hd (rev u)" by (metis hd_append2)
    moreover from False d have "d \<noteq> []" by auto
    then have "\<not> is_space (hd d)" unfolding d_def by (rule hd_dropWhile)
    ultimately show ?thesis by simp
  qed
  then have 1: "dropWhile is_space (rev u) = rev u" by (rule dropWhile_hd_id)
  have 2: "dropWhile is_space u = u" by (simp add: u_def)
  have "strip t = rev u" by (simp add: strip_def u_def d_def)
  moreover have "strip (rev u) = rev u" by (simp add: strip_def 1 2)
  ultimately show ?thesis by simp
qed

lemma ustr_simps: "ustr ''Standard'' \<noteq> ustr ''High''" "ustr ''Standard'' \<noteq> ustr ''Maximum''" "ustr ''High'' \<noteq> ustr ''Maximum''"
  by (simp_all add: ustr_def)

lemma reachable_inv:
  "reachable st \<Longrightarrow> 1 \<le> custom_passes st \<and> strength st \<in> set strength_values"
proof (induction rule: reachable.induct)
  case reach_init
  show ?case by (simp add: default_settings_def strength_values_def)
next
  case (reach_passes st isdigit to_int entry)
  then show ?case
    by (auto simp: update_passes_def Let_def split: option.splits)
qed (simp_all add: toggle_custom_passes_def update_strength_def update_dash_def
      update_intermediate_def update_format_def update_highlight_def
      update_highlight_intensity_def)

lemma reachable_passes:
  assumes "reachable st"
  shows "\<exists>n. determine_passes st = Inr n \<and> 1 \<le> n"
proof -
  from reachable_inv[OF assms] have c: "1 \<le> custom_passes st"
    and s: "strength st \<in> set strength_values" by simp_all
  from s have "\<exists>n. passes_table (strength st) = Some n \<and> 1 \<le> n"
    by (auto simp: strength_values_def passes_table_def ustr_def)
  with c show ?thesis by (auto simp: determine_passes_def)
qed

lemma pass_body_fail:
  assumes "pass_body cl st rp k (pc, outs, cc, par) w = (Inl e, w')"
  shows "w' = called rp cc pc w \<and>
         ((\<exists>m. cl cc (PREFIX @ pc) (num_beams rp) (repetition_penalty rp) = Inl m \<and> e = ClientError m) \<or>
          (e = IndexError \<and> k < passes rp - 1 \<and> cl cc (PREFIX @ pc) (num_beams rp) (repetition_penalty rp) = Inr []))"
  using assms
  by (auto simp: pass_body_def schedule_def called_def unit_event_def Let_def
           split: sum.splits list.splits if_splits)

lemma pass_body_ok:
  assumes "pass_body cl st rp k (pc, outs, cc, par) w = (Inr (pc', outs', cc', par'), w')"
  shows "w' = called rp cc pc w \<and> cc' = Suc cc \<and>
         par' = Some (candidates cl st rp cc (PREFIX @ pc)) \<and>
         outs' = (if save_intermediate st then outs @ [candidates cl st rp cc (PREFIX @ pc)] else outs) \<and>
         (\<exists>d. cl cc (PREFIX @ pc) (num_beams rp) (repetition_penalty rp) = Inr d) \<and>
         (if k < passes rp - 1
          then candidates cl st rp cc (PREFIX @ pc) \<noteq> [] \<and> pc' = hd (candidates cl st rp cc (PREFIX @ pc))
          else pc' = pc)"
  using assms
  by (auto simp: pass_body_def schedule_def called_def unit_event_def candidates_def Let_def
           split: sum.splits list.splits if_splits)

lemma called_simps [simp]:
  "events (called rp cc pc w) = events w @ [unit_event (total_chunks rp) cc]"
  "prompts (called rp cc pc w) = prompts w @ [PREFIX @ pc]"
  "intermediate_outputs (called rp cc pc w) = intermediate_outputs w"
  "all_outputs (called rp cc pc w) = all_outputs w"
  by (simp_all add: called_def)

lemma pass_loop_frame:
  assumes "pass_loop cl st rp ks (pc, outs, cc, par) w = (r, w')"
  shows "\<exists>ps. prompts w' = prompts w @ ps \<and>
           events w' = events w @ map (unit_event (total_chunks rp)) [cc..<cc + length ps] \<and>
           intermediate_outputs w' = intermediate_outputs w \<and>
           all_outputs w' = all_outputs w \<and>
           length ps \<le> length ks \<and>
           (case r of
              Inl e \<Rightarrow> ps \<noteq> [] \<and> e \<noteq> UnboundLocalError
            | Inr (pc', outs', cc', par') \<Rightarrow>
                length ps = length ks \<and> cc' = cc + length ks \<and> (ks \<noteq> [] \<longrightarrow> par' \<noteq> None) \<and> (ks = [] \<longrightarrow> par' = par))"
  using assms
proof (induction ks arbitrary: pc outs cc par w)
  case Nil
  then show ?case by auto
next
  case (Cons k ks)
  show ?case
  proof (cases "pass_body cl st rp k (pc, outs, cc, par) w")
    case (Pair r1 w1)
    show ?thesis
    proof (cases r1)
      case (Inl e)
      with Pair Cons.prems have r: "r = Inl e" "w' = w1" by simp_all
      from Pair Inl have "w1 = called rp cc pc w" "e \<noteq> UnboundLocalError"
        using pass_body_fail[of cl st rp k pc outs cc par w e w1] by auto
      with r show ?thesis
        by (intro exI[of _ "[PREFIX @ pc]"]) simp
    next
      case (Inr loc1)
      obtain pc1 outs1 cc1 par1 where loc1: "loc1 = (pc1, outs1, cc1, par1)"
        by (cases loc1) auto
      from Pair Inr loc1 have ok: "w1 = called rp cc pc w" "cc1 = Suc cc" "par1 \<noteq> None"
        using pass_body_ok[of cl st rp k pc outs cc par w pc1 outs1 cc1 par1 w1] by auto
      from Pair Inr loc1 Cons.prems
      have "pass_loop cl st rp ks (pc1, outs1, cc1, par1) w1 = (r, w')" by simp
      from Cons.IH[OF this] obtain ps where ps:
        "prompts w' = prompts w1 @ ps"
        "events w' = events w1 @ map (unit_event (total_chunks rp)) [cc1..<cc1 + length ps]"
        "intermediate_outputs w' = intermediate_outputs w1"
        "all_outputs w' = all_outputs w1"
        "length ps \<le> length ks"
        "case r of
              Inl e \<Rightarrow> ps \<noteq> [] \<and> e \<noteq> UnboundLocalError
            | Inr (pc', outs', cc', par') \<Rightarrow>
                length ps = length ks \<and> cc' = cc1 + length ks \<and> (ks \<noteq> [] \<longrightarrow> par' \<noteq> None) \<and> (ks = [] \<longrightarrow> par' = par1)"
        by blast
      have ev: "unit_event (total_chunks rp) cc # map (unit_event (total_chunks rp)) [Suc cc..<Suc cc + length ps]
          = map (unit_event (total_chunks rp)) [cc..<cc + length (x # ps)]" for x :: ustr
        by (subst (2) upt_rec) simp
      show ?thesis
        apply (intro exI[of _ "(PREFIX @ pc) # ps"])
        using ps ok ev[of "PREFIX @ pc"]
        by (auto split: sum.splits prod.splits)
    qed
  qed
qed

lemma stored_simps [simp]:
  "events (stored st chunk outs w) = events w"
  "prompts (stored st chunk outs w) = prompts w"
  "all_outputs (stored st chunk outs w) = all_outputs w"
  "intermediate_outputs (stored st chunk outs w) =
     (if save_intermediate st
      then intermediate_outputs w @ [\<lparr>original = chunk, outputs = outs\<rparr>]
      else intermediate_outputs w)"
  by (simp_all add: stored_def)

lemma chunk_loop_Cons_cases:
  assumes "chunk_loop cl st rp (chunk # rest) (cc, par, av) w = (r, w')"
  obtains
    (pass_fail) e where
      "pass_loop cl st rp (py_range (passes rp)) (chunk, [], cc, par) w = (Inl e, w')"
      "r = Inl e"
  | (unbound) pc outs cc1 w1 where
      "pass_loop cl st rp (py_range (passes rp)) (chunk, [], cc, par) w =
         (Inr (pc, outs, cc1, None), w1)"
      "r = Inl UnboundLocalError" "w' = stored st chunk outs w1"
  | (index) pc outs cc1 ps w1 where
      "pass_loop cl st rp (py_range (passes rp)) (chunk, [], cc, par) w =
         (Inr (pc, outs, cc1, Some ps), w1)"
      "append_versions av ps = None"
      "r = Inl IndexError" "w' = stored st chunk outs w1"
  | (continue) pc outs cc1 ps w1 av1 where
      "pass_loop cl st rp (py_range (passes rp)) (chunk, [], cc, par) w =
         (Inr (pc, outs, cc1, Some ps), w1)"
      "append_versions av ps = Some av1"
      "chunk_loop cl st rp rest (cc1, Some ps, av1) (stored st chunk outs w1) = (r, w')"
proof (cases "pass_loop cl st rp (py_range (passes rp)) (chunk, [], cc, par) w")
  case (Pair r1 w1)
  show ?thesis
  proof (cases r1)
    case (Inl e)
    with Pair assms pass_fail show ?thesis by simp
  next
    case (Inr loc1)
    obtain pc outs cc1 par1 where loc1: "loc1 = (pc, outs, cc1, par1)"
      by (cases loc1) auto
    show ?thesis
    proof (cases par1)
      case None
      with Pair Inr loc1 assms unbound show ?thesis
        by (simp add: stored_def Let_def)
    next
      case (Some ps)
      show ?thesis
      proof (cases "append_versions av ps")
        case None
        with Pair Inr loc1 Some assms index show ?thesis
          by (simp add: stored_def Let_def)
      next
        case (Some av1)
        with Pair Inr loc1 \<open>par1 = Some ps\<close> assms continue show ?thesis
          by (simp add: stored_def Let_def)
      qed
    qed
  qed
qed

lemma length_py_range [simp]: "length (py_range n) = nat n"
  by (simp add: py_range_def)

lemma append_versions_length:
  "append_versions av ps = Some av1 \<Longrightarrow> length av1 = length av"
  by (induction av ps arbitrary: av1 rule: append_versions.induct) auto

lemma chunk_loop_events:
  assumes "chunk_loop cl st rp chunks (cc, par, av) w = (r, w')"
  shows "\<exists>m. events w' = events w @ map (unit_event (total_chunks rp)) [cc..<cc + m] \<and>
           all_outputs w' = all_outputs w \<and>
           length (prompts w') = length (prompts w) + m \<and>
           (case r of
              Inl e \<Rightarrow> 0 < passes rp \<longrightarrow> e \<noteq> UnboundLocalError
            | Inr (cc', par', av') \<Rightarrow>
                cc' = cc + m \<and> m = length chunks * nat (passes rp) \<and> length av' = length av \<and>
                (par = None \<and> chunks \<noteq> [] \<longrightarrow> 0 < passes rp))"
  using assms
proof (induction chunks arbitrary: cc par av w)
  case Nil
  then show ?case by auto
next
  case (Cons chunk rest)
  from Cons.prems show ?case
  proof (cases rule: chunk_loop_Cons_cases)
    case (pass_fail e)
    from pass_loop_frame[OF pass_fail(1)] pass_fail(2) show ?thesis
      by (auto split: sum.splits)
  next
    case (unbound pc outs cc1 w1)
    from pass_loop_frame[OF unbound(1)] unbound(2,3) show ?thesis
      by (auto simp: py_range_def)
  next
    case (index pc outs cc1 ps w1)
    from pass_loop_frame[OF index(1)] index(3,4) show ?thesis
      by auto
  next
    case (continue pc outs cc1 ps w1 av1)
    from pass_loop_frame[OF continue(1)] obtain qs where qs:
      "prompts w1 = prompts w @ qs"
      "events w1 = events w @ map (unit_event (total_chunks rp)) [cc..<cc + length qs]"
      "all_outputs w1 = all_outputs w"
      "length qs = nat (passes rp)" "cc1 = cc + nat (passes rp)"
      "par = None \<longrightarrow> 0 < passes rp"
      by (auto simp: py_range_def)
    from Cons.IH[OF continue(3)] obtain m where m:
      "events w' = events (stored st chunk outs w1) @ map (unit_event (total_chunks rp)) [cc1..<cc1 + m]"
      "all_outputs w' = all_outputs (stored st chunk outs w1)"
      "length (prompts w') = length (prompts (stored st chunk outs w1)) + m"
      "case r of
              Inl e \<Rightarrow> 0 < passes rp \<longrightarrow> e \<noteq> UnboundLocalError
            | Inr (cc', par', av') \<Rightarrow>
                cc' = cc1 + m \<and> m = length rest * nat (passes rp) \<and> length av' = length av1 \<and>
                (Some ps = None \<and> rest \<noteq> [] \<longrightarrow> 0 < passes rp)"
      by blast
    have "[cc..<cc + (nat (passes rp) + m)] = [cc..<cc + nat (passes rp)] @ [cc + nat (passes rp)..<cc + nat (passes rp) + m]"
      by (metis add.assoc le_add1 upt_add_eq_append)
    with qs m append_versions_length[OF continue(2)] show ?thesis
      by (intro exI[of _ "nat (passes rp) + m"]) (auto split: sum.splits)
  qed
qed

lemma pass_loop_Cons_cases:
  assumes "pass_loop cl st rp (k # ks) (pc, outs, cc, par) w = (r, w')"
  obtains
    (fail) e where
      "pass_body cl st rp k (pc, outs, cc, par) w = (Inl e, w')" "r = Inl e"
  | (continue) pc1 outs1 cc1 par1 w1 where
      "pass_body cl st rp k (pc, outs, cc, par) w = (Inr (pc1, outs1, cc1, par1), w1)"
      "pass_loop cl st rp ks (pc1, outs1, cc1, par1) w1 = (r, w')"
proof (cases "pass_body cl st rp k (pc, outs, cc, par) w")
  case (Pair r1 w1)
  show ?thesis
  proof (cases r1)
    case (Inl e)
    with Pair assms have "r = Inl e" "w1 = w'" by simp_all
    with Pair Inl fail show ?thesis by blast
  next
    case (Inr loc1)
    obtain pc1 outs1 cc1 par1 where loc1: "loc1 = (pc1, outs1, cc1, par1)" by (cases loc1) auto
    with Pair Inr assms
    have "pass_loop cl st rp ks (pc1, outs1, cc1, par1) w1 = (r, w')" by simp
    with Pair Inr loc1 continue show ?thesis by blast
  qed
qed

lemma chained_Cons:
  assumes "chained cl st rp (Suc cc) ps"
    and "ps \<noteq> [] \<Longrightarrow> candidates cl st rp cc p \<noteq> [] \<and> ps ! 0 = PREFIX @ hd (candidates cl st rp cc p)"
  shows "chained cl st rp cc (p # ps)"
  unfolding chained_def
proof (intro allI impI)
  fix k assume k: "k + 1 < length (p # ps)"
  show "candidates cl st rp (cc + k) ((p # ps) ! k) \<noteq> [] \<and>
        (p # ps) ! (k + 1) = PREFIX @ hd (candidates cl st rp (cc + k) ((p # ps) ! k))"
  proof (cases k)
    case 0
    with k have "ps \<noteq> []" by auto
    with assms(2) 0 show ?thesis by simp
  next
    case (Suc j)
    with k have "j + 1 < length ps" by simp
    with assms(1) Suc show ?thesis by (simp add: chained_def)
  qed
qed

lemma pass_loop_chain:
  assumes "\<forall>j. j + 1 < length ks \<longrightarrow> ks ! j < passes rp - 1"
    and "pass_loop cl st rp ks (pc, outs, cc, par) w = (r, w')"
  shows "\<exists>ps. prompts w' = prompts w @ ps \<and> length ps \<le> length ks \<and>
           (ps \<noteq> [] \<longrightarrow> ps ! 0 = PREFIX @ pc) \<and> chained cl st rp cc ps"
  using assms
proof (induction ks arbitrary: pc outs cc par w)
  case Nil
  then show ?case by (auto simp: chained_def)
next
  case (Cons k ks)
  from Cons.prems(2) show ?case
  proof (cases rule: pass_loop_Cons_cases)
    case (fail e)
    from pass_body_fail[OF fail(1)] show ?thesis
      by (intro exI[of _ "[PREFIX @ pc]"]) (simp add: chained_def)
  next
    case (continue pc1 outs1 cc1 par1 w1)
    note ok = pass_body_ok[OF continue(1)]
    have ks: "\<forall>j. j + 1 < length ks \<longrightarrow> ks ! j < passes rp - 1"
    proof (intro allI impI)
      fix j assume "j + 1 < length ks"
      with Cons.prems(1)[rule_format, of "Suc j"] show "ks ! j < passes rp - 1" by simp
    qed
    from Cons.IH[OF ks continue(2)] obtain ps where ps:
      "prompts w' = prompts w1 @ ps" "length ps \<le> length ks"
      "ps \<noteq> [] \<longrightarrow> ps ! 0 = PREFIX @ pc1" "chained cl st rp cc1 ps"
      by blast
    have "chained cl st rp cc ((PREFIX @ pc) # ps)"
    proof (rule chained_Cons)
      from ps(4) ok show "chained cl st rp (Suc cc) ps" by simp
    next
      assume ne: "ps \<noteq> []"
      with ps(2) have "ks \<noteq> []" by auto
      with Cons.prems(1)[rule_format, of 0] have "k < passes rp - 1" by simp
      with ok ps(3) ne show "candidates cl st rp cc (PREFIX @ pc) \<noteq> [] \<and>
          ps ! 0 = PREFIX @ hd (candidates cl st rp cc (PREFIX @ pc))" by simp
    qed
    with ps ok show ?thesis
      by (intro exI[of _ "(PREFIX @ pc) # ps"]) simp
  qed
qed

lemma py_range_chain: "\<forall>j. j + 1 < length (py_range n) \<longrightarrow> py_range n ! j < n - 1"
  by (auto simp: py_range_def)

lemma pass_loop_result:
  assumes "pass_loop cl st rp ks (pc, outs, cc, par) w = (Inr (pc', outs', cc', par'), w')"
  shows "\<exists>ps. prompts w' = prompts w @ ps \<and> length ps = length ks \<and>
           outs' = outs @ (if save_intermediate st
                           then map (\<lambda>k. candidates cl st rp (cc + k) (ps ! k)) [0..<length ps]
                           else []) \<and>
           (ks \<noteq> [] \<longrightarrow> par' = Some (candidates cl st rp (cc + length ks - 1) (last ps))) \<and>
           (\<forall>k<length ps. \<exists>d. cl (cc + k) (ps ! k) (num_beams rp) (repetition_penalty rp) = Inr d)"
  using assms
proof (induction ks arbitrary: pc outs cc par w)
  case Nil
  then show ?case by auto
next
  case (Cons k ks)
  from Cons.prems show ?case
  proof (cases rule: pass_loop_Cons_cases)
    case (fail e)
    then show ?thesis by simp
  next
    case (continue pc1 outs1 cc1 par1 w1)
    note ok = pass_body_ok[OF continue(1)]
    from Cons.IH[OF continue(2)] obtain ps where ps:
      "prompts w' = prompts w1 @ ps" "length ps = length ks"
      "outs' = outs1 @ (if save_intermediate st
                           then map (\<lambda>k. candidates cl st rp (cc1 + k) (ps ! k)) [0..<length ps]
                           else [])"
      "ks \<noteq> [] \<longrightarrow> par' = Some (candidates cl st rp (cc1 + length ks - 1) (last ps))"
      "\<forall>k<length ps. \<exists>d. cl (cc1 + k) (ps ! k) (num_beams rp) (repetition_penalty rp) = Inr d"
      by blast
    let ?ps = "(PREFIX @ pc) # ps"
    have m: "map (\<lambda>k. candidates cl st rp (cc + k) (?ps ! k)) [0..<length ?ps] =
          candidates cl st rp cc (PREFIX @ pc) #
          map (\<lambda>k. candidates cl st rp (Suc cc + k) (ps ! k)) [0..<length ps]"
      by (simp add: map_upt_Suc del: upt_Suc)
    have 1: "prompts w' = prompts w @ ?ps" using ps(1) ok by simp
    have 2: "length ?ps = length (k # ks)" using ps(2) by simp
    have 3: "outs' = outs @ (if save_intermediate st
                           then map (\<lambda>k. candidates cl st rp (cc + k) (?ps ! k)) [0..<length ?ps]
                           else [])"
      unfolding m using ps(3) ok by simp
    have 4: "par' = Some (candidates cl st rp (cc + length (k # ks) - 1) (last ?ps))"
    proof (cases "ks = []")
      case True
      with continue(2) have "par' = par1" by simp
      with ok have "par' = Some (candidates cl st rp cc (PREFIX @ pc))" by simp
      with True ps(2) show ?thesis by simp
    next
      case False
      with ps(2) have "ps \<noteq> []" by auto
      with False ps(4) ok show ?thesis by simp
    qed
    have 5: "\<forall>j<length ?ps. \<exists>d. cl (cc + j) (?ps ! j) (num_beams rp) (repetition_penalty rp) = Inr d"
    proof (intro allI impI)
      fix j assume j: "j < length ?ps"
      show "\<exists>d. cl (cc + j) (?ps ! j) (num_beams rp) (repetition_penalty rp) = Inr d"
      proof (cases j)
        case 0
        with ok show ?thesis by simp
      next
        case (Suc i)
        with j ps(5) ok show ?thesis by simp
      qed
    qed
    from 1 2 3 4 5 show ?thesis by blast
  qed
qed


lemma pass_loop_prompts_unique:
  assumes "prompts w' = prompts w @ ps" "prompts w' = prompts w @ qs"
  shows "ps = qs"
  using assms by simp

lemma pass_loop_ok_all:
  assumes "pass_loop cl st rp (py_range (passes rp)) (chunk, [], cc, par) w =
             (Inr (pc', outs', cc', par'), w')"
  shows "\<exists>qs. prompts w' = prompts w @ qs \<and> length qs = nat (passes rp) \<and>
           intermediate_outputs w' = intermediate_outputs w \<and>
           cc' = cc + nat (passes rp) \<and>
           (qs \<noteq> [] \<longrightarrow> qs ! 0 = PREFIX @ chunk) \<and> chained cl st rp cc qs \<and>
           outs' = (if save_intermediate st
                    then map (\<lambda>k. candidates cl st rp (cc + k) (qs ! k)) [0..<nat (passes rp)]
                    else []) \<and>
           (0 < passes rp \<longrightarrow>
              par' = Some (candidates cl st rp (cc + nat (passes rp) - 1) (qs ! (nat (passes rp) - 1)))) \<and>
           (\<forall>k<nat (passes rp). \<exists>d. cl (cc + k) (qs ! k) (num_beams rp) (repetition_penalty rp) = Inr d)"
proof -
  from pass_loop_result[OF assms] obtain qs where qs:
    "prompts w' = prompts w @ qs" "length qs = length (py_range (passes rp))"
    "outs' = [] @ (if save_intermediate st
                           then map (\<lambda>k. candidates cl st rp (cc + k) (qs ! k)) [0..<length qs]
                           else [])"
    "py_range (passes rp) \<noteq> [] \<longrightarrow>
       par' = Some (candidates cl st rp (cc + length (py_range (passes rp)) - 1) (last qs))"
    "\<forall>k<length qs. \<exists>d. cl (cc + k) (qs ! k) (num_beams rp) (repetition_penalty rp) = Inr d"
    by blast
  from pass_loop_chain[OF py_range_chain assms] obtain qs' where qs':
    "prompts w' = prompts w @ qs'" "qs' \<noteq> [] \<longrightarrow> qs' ! 0 = PREFIX @ chunk"
    "chained cl st rp cc qs'" by blast
  from qs(1) qs'(1) have e: "qs' = qs" by simp
  from pass_loop_frame[OF assms] have f: "intermediate_outputs w' = intermediate_outputs w"
    "cc' = cc + nat (passes rp)" by auto
  have l: "length qs = nat (passes rp)" using qs(2) by simp
  have p: "0 < passes rp \<longrightarrow>
      par' = Some (candidates cl st rp (cc + nat (passes rp) - 1) (qs ! (nat (passes rp) - 1)))"
  proof
    assume "0 < passes rp"
    then have "py_range (passes rp) \<noteq> []" "qs \<noteq> []" using l by (auto simp: py_range_def)
    with qs(4) l show "par' = Some (candidates cl st rp (cc + nat (passes rp) - 1) (qs ! (nat (passes rp) - 1)))"
      by (simp add: last_conv_nth)
  qed
  from qs qs' e f l p show ?thesis
    by (intro exI[of _ qs]) simp
qed

lemma chunk_loop_chain:
  assumes "chunk_loop cl st rp chunks (cc, par, av) w = (r, w')"
  shows "\<exists>ps. prompts w' = prompts w @ ps \<and> length ps \<le> length chunks * nat (passes rp) \<and>
           (\<forall>i. i * nat (passes rp) < length ps \<longrightarrow>
                ps ! (i * nat (passes rp)) = PREFIX @ chunks ! i) \<and>
           (\<forall>i k. k + 1 < nat (passes rp) \<and> i * nat (passes rp) + k + 1 < length ps \<longrightarrow>
                candidates cl st rp (cc + i * nat (passes rp) + k) (ps ! (i * nat (passes rp) + k)) \<noteq> [] \<and>
                ps ! (i * nat (passes rp) + k + 1) =
                  PREFIX @ hd (candidates cl st rp (cc + i * nat (passes rp) + k)
                                 (ps ! (i * nat (passes rp) + k))))"
  using assms
proof (induction chunks arbitrary: cc par av w)
  case Nil
  then show ?case by auto
next
  case (Cons chunk rest)
  let ?n = "nat (passes rp)"
  have single: "?case" if qs: "prompts w' = prompts w @ qs" "length qs \<le> ?n"
      "qs \<noteq> [] \<longrightarrow> qs ! 0 = PREFIX @ chunk" "chained cl st rp cc qs" for qs
  proof -
    have i0: "i = 0" if "i * ?n < length qs" for i
    proof (rule ccontr)
      assume "i \<noteq> 0"
      then have "?n \<le> i * ?n" by (cases i) auto
      with that qs(2) show False by simp
    qed
    have i0': "i = 0" if "i * ?n + k + 1 < length qs" for i k
      using that i0[of i] by simp
    show ?case
    proof (intro exI[of _ qs] conjI allI impI)
      show "prompts w' = prompts w @ qs" by fact
      show "length qs \<le> length (chunk # rest) * ?n" using qs(2) by simp
    next
      fix i assume "i * ?n < length qs"
      with i0[OF this] qs(3) show "qs ! (i * ?n) = PREFIX @ (chunk # rest) ! i" by auto
    next
      fix i k assume a: "k + 1 < ?n \<and> i * ?n + k + 1 < length qs"
      with i0'[of i k] have "i = 0" "k + 1 < length qs" by auto
      with qs(4) show "candidates cl st rp (cc + i * ?n + k) (qs ! (i * ?n + k)) \<noteq> []"
        by (simp add: chained_def)
    next
      fix i k assume a: "k + 1 < ?n \<and> i * ?n + k + 1 < length qs"
      with i0'[of i k] have "i = 0" "k + 1 < length qs" by auto
      with qs(4) show "qs ! (i * ?n + k + 1) =
          PREFIX @ hd (candidates cl st rp (cc + i * ?n + k) (qs ! (i * ?n + k)))"
        by (simp add: chained_def)
    qed
  qed
  from Cons.prems show ?case
  proof (cases rule: chunk_loop_Cons_cases)
    case (pass_fail e)
    from pass_loop_chain[OF py_range_chain pass_fail(1)] single show ?thesis by auto
  next
    case (unbound pc outs cc1 w1)
    from pass_loop_chain[OF py_range_chain unbound(1)] unbound(3) single show ?thesis by auto
  next
    case (index pc outs cc1 ps w1)
    from pass_loop_chain[OF py_range_chain index(1)] index(4) single show ?thesis by auto
  next
    case (continue pc outs cc1 fc w1 av1)
    from pass_loop_ok_all[OF continue(1)] obtain qs where qs:
      "prompts w1 = prompts w @ qs" "length qs = ?n" "cc1 = cc + ?n"
      "qs \<noteq> [] \<longrightarrow> qs ! 0 = PREFIX @ chunk" "chained cl st rp cc qs" by blast
    from Cons.IH[OF continue(3)] obtain ps where ps:
      "prompts w' = prompts (stored st chunk outs w1) @ ps"
      "length ps \<le> length rest * ?n"
      "\<forall>i. i * ?n < length ps \<longrightarrow> ps ! (i * ?n) = PREFIX @ rest ! i"
      "\<forall>i k. k + 1 < ?n \<and> i * ?n + k + 1 < length ps \<longrightarrow>
                candidates cl st rp (cc1 + i * ?n + k) (ps ! (i * ?n + k)) \<noteq> [] \<and>
                ps ! (i * ?n + k + 1) =
                  PREFIX @ hd (candidates cl st rp (cc1 + i * ?n + k) (ps ! (i * ?n + k)))"
      by blast
    have hi: "(qs @ ps) ! (?n + j) = ps ! j" for j
      using qs(2) by (metis nth_append_length_plus)
    have lo: "(qs @ ps) ! k = qs ! k" if "k < ?n" for k
      using that qs(2) by (simp add: nth_append)
    show ?thesis
    proof (intro exI[of _ "qs @ ps"] conjI allI impI)
      show "prompts w' = prompts w @ qs @ ps" using ps(1) qs(1) by simp
      show "length (qs @ ps) \<le> length (chunk # rest) * ?n" using ps(2) qs(2) by simp
    next
      fix i assume a: "i * ?n < length (qs @ ps)"
      show "(qs @ ps) ! (i * ?n) = PREFIX @ (chunk # rest) ! i"
      proof (cases i)
        case 0
        with a have "qs @ ps \<noteq> []" by auto
        with ps(2) qs(2) have "qs \<noteq> []" by (cases "?n = 0") auto
        with qs(4) 0 show ?thesis by (simp add: nth_append)
      next
        case (Suc j)
        with a qs(2) have "j * ?n < length ps" by simp
        with ps(3) have "ps ! (j * ?n) = PREFIX @ rest ! j" by blast
        with Suc hi[of "j * ?n"] show ?thesis by simp
      qed
    next
      fix i k assume a: "k + 1 < ?n \<and> i * ?n + k + 1 < length (qs @ ps)"
      show "candidates cl st rp (cc + i * ?n + k) ((qs @ ps) ! (i * ?n + k)) \<noteq> []"
      proof (cases i)
        case 0
        with a qs(5) qs(2) lo[of k] show ?thesis by (simp add: chained_def)
      next
        case (Suc j)
        with a qs(2) have "k + 1 < ?n \<and> j * ?n + k + 1 < length ps" by simp
        with ps(4) have "candidates cl st rp (cc1 + j * ?n + k) (ps ! (j * ?n + k)) \<noteq> []" by blast
        with Suc hi[of "j * ?n + k"] qs(3) show ?thesis by (simp add: add.assoc add.left_commute)
      qed
    next
      fix i k assume a: "k + 1 < ?n \<and> i * ?n + k + 1 < length (qs @ ps)"
      show "(qs @ ps) ! (i * ?n + k + 1) =
          PREFIX @ hd (candidates cl st rp (cc + i * ?n + k) ((qs @ ps) ! (i * ?n + k)))"
      proof (cases i)
        case 0
        with a qs(5) qs(2) lo[of k] lo[of "k + 1"] show ?thesis by (simp add: chained_def)
      next
        case (Suc j)
        with a qs(2) have "k + 1 < ?n \<and> j * ?n + k + 1 < length ps" by simp
        with ps(4) have "ps ! (j * ?n + k + 1) =
                  PREFIX @ hd (candidates cl st rp (cc1 + j * ?n + k) (ps ! (j * ?n + k)))" by blast
        with Suc hi[of "j * ?n + k"] hi[of "j * ?n + k + 1"] qs(3) show ?thesis
          by (simp add: add.assoc add.left_commute)
      qed
    qed
  qed
qed

lemma append_versions_nth:
  "append_versions av ps = Some av1 \<Longrightarrow> length ps = length av \<Longrightarrow>
   av1 = map (\<lambda>v. av ! v @ [ps ! v]) [0..<length av]"
proof (induction av ps arbitrary: av1 rule: append_versions.induct)
  case (1 vs)
  then show ?case by simp
next
  case (2 p ps)
  then show ?case by simp
next
  case (3 v vs p ps)
  from 3(2) obtain r where r: "append_versions vs ps = Some r" "av1 = (v @ [p]) # r" by auto
  from 3(1)[OF r(1)] 3(3) have "r = map (\<lambda>i. vs ! i @ [ps ! i]) [0..<length vs]" by simp
  with r(2) show ?case by (simp add: map_upt_Suc del: upt_Suc)
qed

lemma length_candidates:
  "cl u p (num_beams rp) (repetition_penalty rp) = Inr d \<Longrightarrow>
   length (candidates cl st rp u p) = length d"
  by (simp add: candidates_def)

lemma chunk_loop_versions:
  assumes "chunk_loop cl st rp chunks (cc, par, av) w = (Inr (cc', par', av'), w')"
    and pos: "0 < passes rp"
    and contract: "\<forall>u p d. cl u p (num_beams rp) (repetition_penalty rp) = Inr d \<longrightarrow> length d = length av"
  shows "\<exists>ps. prompts w' = prompts w @ ps \<and> length ps = length chunks * nat (passes rp) \<and>
           av' = map (\<lambda>v. av ! v @
                       map (\<lambda>i. candidates cl st rp (cc + i * nat (passes rp) + nat (passes rp) - 1)
                                  (ps ! (i * nat (passes rp) + nat (passes rp) - 1)) ! v)
                         [0..<length chunks])
                   [0..<length av]"
  using assms(1,3)
proof (induction chunks arbitrary: cc par av w)
  case Nil
  then show ?case by (simp add: map_nth)
next
  case (Cons chunk rest)
  let ?n = "nat (passes rp)"
  from pos have n: "0 < ?n" by simp
  from Cons.prems(1) show ?case
  proof (cases rule: chunk_loop_Cons_cases)
    case (continue pc outs cc1 fc w1 av1)
    from pass_loop_ok_all[OF continue(1)] pos obtain qs where qs:
      "prompts w1 = prompts w @ qs" "length qs = ?n" "cc1 = cc + ?n"
      "fc = candidates cl st rp (cc + ?n - 1) (qs ! (?n - 1))"
      "\<forall>k<?n. \<exists>d. cl (cc + k) (qs ! k) (num_beams rp) (repetition_penalty rp) = Inr d"
      by auto
    from qs(5) n obtain d where "cl (cc + (?n - 1)) (qs ! (?n - 1)) (num_beams rp) (repetition_penalty rp) = Inr d"
      by (metis diff_less zero_less_one)
    with n have d: "cl (cc + ?n - 1) (qs ! (?n - 1)) (num_beams rp) (repetition_penalty rp) = Inr d"
      by simp
    with Cons.prems(2) have "length d = length av" by blast
    with d qs(4) have lfc: "length fc = length av" by (simp add: candidates_def)
    from append_versions_nth[OF continue(2) lfc]
    have av1: "av1 = map (\<lambda>v. av ! v @ [fc ! v]) [0..<length av]" .
    then have lav1: "length av1 = length av" by simp
    with Cons.prems(2)
    have c1: "\<forall>u p d. cl u p (num_beams rp) (repetition_penalty rp) = Inr d \<longrightarrow> length d = length av1"
      by simp
    from Cons.IH[OF continue(3) c1] obtain ps where ps:
      "prompts w' = prompts (stored st chunk outs w1) @ ps"
      "length ps = length rest * ?n"
      "av' = map (\<lambda>v. av1 ! v @
                       map (\<lambda>i. candidates cl st rp (cc1 + i * ?n + ?n - 1)
                                  (ps ! (i * ?n + ?n - 1)) ! v)
                         [0..<length rest])
                   [0..<length av1]"
      by blast
    have hi: "(qs @ ps) ! (?n + j) = ps ! j" for j
      using qs(2) by (metis nth_append_length_plus)
    have lo: "(qs @ ps) ! k = qs ! k" if "k < ?n" for k
      using that qs(2) by (simp add: nth_append)
    have idx: "Suc i * ?n + ?n - Suc 0 = ?n + (i * ?n + ?n - Suc 0)" for i
      using n by simp
    have cidx: "cc + Suc i * ?n + ?n - Suc 0 = cc1 + i * ?n + ?n - Suc 0" for i
      using n qs(3) by simp
    have "av' = map (\<lambda>v. av ! v @
                       map (\<lambda>i. candidates cl st rp (cc + i * ?n + ?n - 1)
                                  ((qs @ ps) ! (i * ?n + ?n - 1)) ! v)
                         [0..<length (chunk # rest)])
                   [0..<length av]"
      unfolding ps(3) lav1
    proof (rule map_cong[OF refl])
      fix v assume "v \<in> set [0..<length av]"
      then have v: "v < length av" by simp
      then have "av1 ! v = av ! v @ [fc ! v]" unfolding av1 by simp
      moreover have "fc ! v = candidates cl st rp (cc + 0 * ?n + ?n - 1) ((qs @ ps) ! (0 * ?n + ?n - 1)) ! v"
        using qs(4) lo[of "?n - 1"] n by simp
      ultimately show "av1 ! v @
           map (\<lambda>i. candidates cl st rp (cc1 + i * ?n + ?n - 1) (ps ! (i * ?n + ?n - 1)) ! v)
             [0..<length rest] =
           av ! v @
           map (\<lambda>i. candidates cl st rp (cc + i * ?n + ?n - 1) ((qs @ ps) ! (i * ?n + ?n - 1)) ! v)
             [0..<length (chunk # rest)]"
        by (simp add: map_upt_Suc idx cidx hi del: upt_Suc mult_Suc)
    qed
    with ps(1,2) qs(1,2) show ?thesis
      by (intro exI[of _ "qs @ ps"]) simp
  qed simp_all
qed


lemma pass_body_succeeds:
  assumes "cl cc (PREFIX @ pc) (num_beams rp) (repetition_penalty rp) = Inr d" "d \<noteq> []"
  shows "\<exists>pc' outs' par' w'.
           pass_body cl st rp k (pc, outs, cc, par) w = (Inr (pc', outs', Suc cc, par'), w')"
  using assms
  by (cases d) (simp_all add: pass_body_def Let_def)


lemma pass_loop_succeeds:
  assumes "\<forall>u. cc \<le> u \<and> u < cc + length ks \<longrightarrow>
             (\<forall>p. \<exists>d. cl u p (num_beams rp) (repetition_penalty rp) = Inr d \<and> d \<noteq> [])"
  shows "\<exists>pc' outs' cc' par' w'.
           pass_loop cl st rp ks (pc, outs, cc, par) w = (Inr (pc', outs', cc', par'), w')"
  using assms
proof (induction ks arbitrary: pc outs cc par w)
  case Nil
  show ?case by simp
next
  case (Cons k ks)
  have "cc \<le> cc \<and> cc < cc + length (k # ks)" by simp
  from Cons.prems[rule_format, OF this, of "PREFIX @ pc"] obtain d where
    "cl cc (PREFIX @ pc) (num_beams rp) (repetition_penalty rp) = Inr d" "d \<noteq> []"
    by auto
  from pass_body_succeeds[where cl=cl and cc=cc and pc=pc and rp=rp and d=d, OF this] obtain pc1 outs1 par1 w1 where
    pb: "pass_body cl st rp k (pc, outs, cc, par) w = (Inr (pc1, outs1, Suc cc, par1), w1)"
    by blast
  have "\<forall>u. Suc cc \<le> u \<and> u < Suc cc + length ks \<longrightarrow>
             (\<forall>p. \<exists>d. cl u p (num_beams rp) (repetition_penalty rp) = Inr d \<and> d \<noteq> [])"
    using Cons.prems by simp
  from Cons.IH[where cc="Suc cc", OF this, of pc1 outs1 par1 w1] pb show ?case by simp
qed


lemma append_versions_succeeds:
  "length ps \<le> length av \<Longrightarrow> \<exists>av1. append_versions av ps = Some av1"
  by (induction av ps rule: append_versions.induct) auto

lemma chunk_loop_succeeds:
  assumes "0 < passes rp"
    and "\<forall>u. cc \<le> u \<and> u < cc + length chunks * nat (passes rp) \<longrightarrow>
           (\<forall>p. \<exists>d. cl u p (num_beams rp) (repetition_penalty rp) = Inr d \<and> d \<noteq> [] \<and>
                  length d \<le> length av)"
  shows "\<exists>cc' par' av' w'. chunk_loop cl st rp chunks (cc, par, av) w = (Inr (cc', par', av'), w')"
  using assms(2)
proof (induction chunks arbitrary: cc par av w)
  case Nil
  show ?case by simp
next
  case (Cons chunk rest)
  let ?n = "nat (passes rp)"
  from assms(1) have n: "0 < ?n" by simp
  have "\<forall>u. cc \<le> u \<and> u < cc + length (py_range (passes rp)) \<longrightarrow>
             (\<forall>p. \<exists>d. cl u p (num_beams rp) (repetition_penalty rp) = Inr d \<and> d \<noteq> [])"
  proof (intro allI impI)
    fix u p assume "cc \<le> u \<and> u < cc + length (py_range (passes rp))"
    then have "cc \<le> u \<and> u < cc + length (chunk # rest) * ?n" by simp
    with Cons.prems show "\<exists>d. cl u p (num_beams rp) (repetition_penalty rp) = Inr d \<and> d \<noteq> []"
      by blast
  qed
  from pass_loop_succeeds[where cl=cl and rp=rp and cc=cc and ks="py_range (passes rp)", OF this,
      of st chunk "[]" par w] obtain pc outs cc1 par1 w1 where
    pl: "pass_loop cl st rp (py_range (passes rp)) (chunk, [], cc, par) w =
           (Inr (pc, outs, cc1, par1), w1)" by blast
  from pass_loop_ok_all[OF pl] assms(1) obtain qs where qs:
    "cc1 = cc + ?n"
    "par1 = Some (candidates cl st rp (cc + ?n - 1) (qs ! (?n - 1)))"
    by auto
  let ?fc = "candidates cl st rp (cc + ?n - 1) (qs ! (?n - 1))"
  have "cc + ?n - 1 < cc + (?n + length rest * ?n)" "cc \<le> cc + ?n - 1" using n by linarith+
  then have "cc \<le> cc + ?n - 1 \<and> cc + ?n - 1 < cc + length (chunk # rest) * ?n" by simp
  from Cons.prems[rule_format, OF this, of "qs ! (?n - 1)"] obtain d where
    d: "cl (cc + ?n - 1) (qs ! (?n - 1)) (num_beams rp) (repetition_penalty rp) = Inr d"
       "length d \<le> length av"
    by auto
  then have "length ?fc \<le> length av" by (simp add: candidates_def)
  from append_versions_succeeds[OF this] obtain av1 where
    av1: "append_versions av ?fc = Some av1" by blast
  from append_versions_length[OF av1] have lav: "length av1 = length av" .
  have "\<forall>u. cc1 \<le> u \<and> u < cc1 + length rest * ?n \<longrightarrow>
           (\<forall>p. \<exists>d. cl u p (num_beams rp) (repetition_penalty rp) = Inr d \<and> d \<noteq> [] \<and>
                  length d \<le> length av1)"
    using Cons.prems qs(1) lav by simp
  from Cons.IH[where cc=cc1 and av=av1, OF this, of par1 "stored st chunk outs w1"]
  obtain cc' par' av' w' where
    "chunk_loop cl st rp rest (cc1, par1, av1) (stored st chunk outs w1) =
       (Inr (cc', par', av'), w')" by blast
  with pl qs(2) av1 show ?case
    by (simp add: stored_def Let_def)
qed


lemma chunk_loop_store:
  assumes "chunk_loop cl st rp chunks (cc, par, av) w = (Inr (cc', par', av'), w')"
  shows "\<exists>ps. prompts w' = prompts w @ ps \<and> length ps = length chunks * nat (passes rp) \<and>
           intermediate_outputs w' =
             intermediate_outputs w @
             (if save_intermediate st
              then map (\<lambda>i. \<lparr>original = chunks ! i,
                           outputs = map (\<lambda>k. candidates cl st rp (cc + i * nat (passes rp) + k)
                                              (ps ! (i * nat (passes rp) + k)))
                                       [0..<nat (passes rp)]\<rparr>)
                     [0..<length chunks]
              else [])"
  using assms
proof (induction chunks arbitrary: cc par av w)
  case Nil
  then show ?case by simp
next
  case (Cons chunk rest)
  let ?n = "nat (passes rp)"
  from Cons.prems show ?case
  proof (cases rule: chunk_loop_Cons_cases)
    case (continue pc outs cc1 fc w1 av1)
    from pass_loop_ok_all[OF continue(1)] obtain qs where qs:
      "prompts w1 = prompts w @ qs" "length qs = ?n" "cc1 = cc + ?n"
      "intermediate_outputs w1 = intermediate_outputs w"
      "outs = (if save_intermediate st
               then map (\<lambda>k. candidates cl st rp (cc + k) (qs ! k)) [0..<?n] else [])"
      by blast
    from Cons.IH[OF continue(3)] obtain ps where ps:
      "prompts w' = prompts (stored st chunk outs w1) @ ps"
      "length ps = length rest * ?n"
      "intermediate_outputs w' =
             intermediate_outputs (stored st chunk outs w1) @
             (if save_intermediate st
              then map (\<lambda>i. \<lparr>original = rest ! i,
                           outputs = map (\<lambda>k. candidates cl st rp (cc1 + i * ?n + k)
                                              (ps ! (i * ?n + k)))
                                       [0..<?n]\<rparr>)
                     [0..<length rest]
              else [])"
      by blast
    have hi: "(qs @ ps) ! (?n + j) = ps ! j" for j
      using qs(2) by (metis nth_append_length_plus)
    have lo: "(qs @ ps) ! k = qs ! k" if "k < ?n" for k
      using that qs(2) by (simp add: nth_append)
    have later: "candidates cl st rp (cc + Suc i * ?n + k) ((qs @ ps) ! (Suc i * ?n + k)) =
                 candidates cl st rp (cc1 + i * ?n + k) (ps ! (i * ?n + k))" for i k
      using hi[of "i * ?n + k"] qs(3) by (simp add: add.assoc)
    have store: "intermediate_outputs w' =
             intermediate_outputs w @
             (if save_intermediate st
              then map (\<lambda>i. \<lparr>original = (chunk # rest) ! i,
                           outputs = map (\<lambda>k. candidates cl st rp (cc + i * ?n + k)
                                              ((qs @ ps) ! (i * ?n + k)))
                                       [0..<?n]\<rparr>)
                     [0..<length (chunk # rest)]
              else [])"
      unfolding ps(3)
      by (simp add: map_upt_Suc later lo qs(4,5) del: upt_Suc mult_Suc)
    from ps(1,2) qs(1,2) store show ?thesis
      by (intro exI[of _ "qs @ ps"]) simp
  qed simp_all
qed

lemma chunk_loop_first_call:
  assumes "chunk_loop cl st rp (chunk # rest) (cc, par, av) w = (r, w')" "0 < passes rp"
  shows "length (prompts w) < length (prompts w')"
  using assms(1)
proof (cases rule: chunk_loop_Cons_cases)
  case (pass_fail e)
  from pass_loop_frame[OF pass_fail(1)] show ?thesis by auto
next
  case (unbound pc outs cc1 w1)
  from pass_loop_frame[OF unbound(1)] unbound(3) assms(2) show ?thesis by auto
next
  case (index pc outs cc1 ps w1)
  from pass_loop_frame[OF index(1)] index(4) assms(2) show ?thesis by auto
next
  case (continue pc outs cc1 ps w1 av1)
  from pass_loop_frame[OF continue(1)] assms(2)
  have "length (prompts w) < length (prompts w1)" by auto
  moreover from chunk_loop_events[OF continue(3)]
  have "length (prompts w1) \<le> length (prompts w')" by auto
  ultimately show ?thesis by simp
qed

lemma process_body_cases [consumes 1, case_names fail ok]:
  assumes "determine_passes st = Inr n"
  obtains
    (fail) e w2 where
      "chunk_loop cl st (run_params_of tok st input n) (split_into_chunks tok input)
         (0, None, [[], [], [], []])
         (schedule (Update_progress 0 (int (length (split_into_chunks tok input)) * n)
            (Processing_with n)) w) = (Inl e, w2)"
      "process_body cl tok st input w = (Inl e, w2)"
  | (ok) cc par av w2 where
      "chunk_loop cl st (run_params_of tok st input n) (split_into_chunks tok input)
         (0, None, [[], [], [], []])
         (schedule (Update_progress 0 (int (length (split_into_chunks tok input)) * n)
            (Processing_with n)) w) = (Inr (cc, par, av), w2)"
      "length av = 4"
      "process_body cl tok st input w =
         (Inr (), schedule (Update_output (join_sp (hd av)) True)
            (schedule (Update_progress (int (length (split_into_chunks tok input)) * n)
                 (int (length (split_into_chunks tok input)) * n) Complete)
               (w2\<lparr>all_outputs := map join_sp av\<rparr>)))"
proof -
  let ?chunks = "split_into_chunks tok input"
  let ?T = "int (length ?chunks) * n"
  let ?rp = "run_params_of tok st input n"
  let ?w1 = "schedule (Update_progress 0 ?T (Processing_with n)) w"
  have pb: "process_body cl tok st input w =
     (case chunk_loop cl st ?rp ?chunks (0, None, [[], [], [], []]) ?w1 of
        (Inl e, w2) \<Rightarrow> (Inl e, w2)
      | (Inr (chunk_counter, paraphrases, all_versions), w2) \<Rightarrow>
          (case all_outputs (schedule (Update_progress ?T ?T Complete)
                      (w2\<lparr>all_outputs := map join_sp all_versions\<rparr>)) of
             [] \<Rightarrow> (Inl IndexError,
                    schedule (Update_progress ?T ?T Complete)
                      (w2\<lparr>all_outputs := map join_sp all_versions\<rparr>))
           | first # _ \<Rightarrow>
               (Inr (), schedule (Update_output first True)
                  (schedule (Update_progress ?T ?T Complete)
                     (w2\<lparr>all_outputs := map join_sp all_versions\<rparr>)))))"
    unfolding process_body_def assms run_params_of_def Let_def by simp
  obtain r w2 where cl: "chunk_loop cl st ?rp ?chunks (0, None, [[], [], [], []]) ?w1 = (r, w2)"
    by (cases "chunk_loop cl st ?rp ?chunks (0, None, [[], [], [], []]) ?w1") auto
  show ?thesis
  proof (cases r)
    case (Inl e)
    with cl pb have "process_body cl tok st input w = (Inl e, w2)" by simp
    with cl Inl fail show ?thesis by blast
  next
    case (Inr loc)
    obtain cc par av where loc: "loc = (cc, par, av)" by (cases loc) auto
    from chunk_loop_events[OF cl[unfolded Inr loc]] have av: "length av = 4" by auto
    then obtain v0 vs where avs: "av = v0 # vs" by (cases av) auto
    from cl pb Inr loc avs
    have "process_body cl tok st input w =
         (Inr (), schedule (Update_output (join_sp (hd av)) True)
            (schedule (Update_progress ?T ?T Complete) (w2\<lparr>all_outputs := map join_sp av\<rparr>)))"
      by (simp add: schedule_def)
    with cl Inr loc av ok show ?thesis by blast
  qed
qed

lemma run_params_of_simps [simp]:
  "passes (run_params_of tok st input n) = n"
  "total_chunks (run_params_of tok st input n) = int (length (split_into_chunks tok input)) * n"
  "num_beams (run_params_of tok st input n) = fst (beam_params (strength st))"
  "repetition_penalty (run_params_of tok st input n) = snd (beam_params (strength st))"
  by (simp_all add: run_params_of_def)

lemma schedule_simps [simp]:
  "events (schedule ev w) = events w @ [ev]"
  "prompts (schedule ev w) = prompts w"
  "intermediate_outputs (schedule ev w) = intermediate_outputs w"
  "all_outputs (schedule ev w) = all_outputs w"
  by (simp_all add: schedule_def)

lemma new_prompts_append: "prompts w' = prompts w @ ps \<Longrightarrow> new_prompts w w' = ps"
  by (simp add: new_prompts_def)

lemma run_succeeds:
  assumes n: "determine_passes st = Inr n" and pos: "0 < n"
    and a: "answers cl (run_params_of tok st input n) (length (split_into_chunks tok input) * nat n)"
  shows "fst (process_body cl tok st input w) = Inr ()"
proof -
  let ?rp = "run_params_of tok st input n"
  have "\<forall>u. 0 \<le> u \<and> u < 0 + length (split_into_chunks tok input) * nat (passes ?rp) \<longrightarrow>
           (\<forall>p. \<exists>d. cl u p (num_beams ?rp) (repetition_penalty ?rp) = Inr d \<and> d \<noteq> [] \<and>
                  length d \<le> length [[], [], [], []::ustr list])"
  proof -
    have l4: "length [[], [], [], []::ustr list] = 4" by simp
    show ?thesis using a unfolding answers_def l4 by simp
  qed
  from chunk_loop_succeeds[where cl=cl and rp="?rp" and cc=0 and av="[[], [], [], []]"
      and chunks="split_into_chunks tok input", OF _ this,
      of st None "schedule (Update_progress 0 (int (length (split_into_chunks tok input)) * n)
            (Processing_with n)) w"] pos
  obtain cc' par' av' w' where ok:
    "chunk_loop cl st ?rp (split_into_chunks tok input) (0, None, [[], [], [], []])
       (schedule (Update_progress 0 (int (length (split_into_chunks tok input)) * n)
            (Processing_with n)) w) = (Inr (cc', par', av'), w')"
    by auto
  from n show ?thesis
  proof (cases rule: process_body_cases[where cl=cl and tok=tok and input=input and w=w])
    case (fail e w2)
    with ok show ?thesis by simp
  next
    case (ok cc par av w2)
    then show ?thesis by simp
  qed
qed

lemma run_state_cases [consumes 1, case_names fail ok]:
  assumes "determine_passes st = Inr n"
  obtains
    (fail) e w2 where
      "chunk_loop cl st (run_params_of tok st input n) (split_into_chunks tok input)
         (0, None, [[], [], [], []])
         (schedule (Update_progress 0 (int (length (split_into_chunks tok input)) * n)
            (Processing_with n)) w) = (Inl e, w2)"
      "fst (process_body cl tok st input w) = Inl e"
      "process_text py cl tok st input w = schedule (Update_output (error_msg py e) False) w2"
  | (ok) cc par av w2 where
      "chunk_loop cl st (run_params_of tok st input n) (split_into_chunks tok input)
         (0, None, [[], [], [], []])
         (schedule (Update_progress 0 (int (length (split_into_chunks tok input)) * n)
            (Processing_with n)) w) = (Inr (cc, par, av), w2)"
      "length av = 4"
      "fst (process_body cl tok st input w) = Inr ()"
      "process_text py cl tok st input w =
         schedule (Update_output (join_sp (hd av)) True)
            (schedule (Update_progress (int (length (split_into_chunks tok input)) * n)
                 (int (length (split_into_chunks tok input)) * n) Complete)
               (w2\<lparr>all_outputs := map join_sp av\<rparr>))"
  using assms
proof (cases rule: process_body_cases[where cl=cl and tok=tok and input=input and w=w])
  case (fail e w2)
  then show ?thesis using that(1)[of e w2] by (simp add: process_text_def)
next
  case (ok cc par av w2)
  then show ?thesis using that(2)[of cc par av w2] by (simp add: process_text_def)
qed

lemma run_events:
  assumes n: "determine_passes st = Inr n"
  shows "events (process_text py cl tok st input w) =
           events w @
           [Update_progress 0 (int (length (split_into_chunks tok input)) * n) (Processing_with n)] @
           map (unit_event (int (length (split_into_chunks tok input)) * n))
             [0..<length (new_prompts w (process_text py cl tok st input w))] @
           (case fst (process_body cl tok st input w) of
              Inl e \<Rightarrow> [Update_output (error_msg py e) False]
            | Inr u \<Rightarrow>
                [Update_progress (int (length (split_into_chunks tok input)) * n)
                   (int (length (split_into_chunks tok input)) * n) Complete,
                 Update_output (hd (all_outputs (process_text py cl tok st input w))) True])"
  using n
proof (cases rule: run_state_cases[where cl=cl and tok=tok and input=input and w=w and py=py])
  case (fail e w2)
  from chunk_loop_events[OF fail(1)] obtain m where
    "events w2 = events w @ [Update_progress 0 (int (length (split_into_chunks tok input)) * n)
        (Processing_with n)] @ map (unit_event (int (length (split_into_chunks tok input)) * n)) [0..<m]"
    "length (prompts w2) = length (prompts w) + m"
    by auto
  with fail(2,3) show ?thesis by (simp add: new_prompts_def)
next
  case (ok cc par av w2)
  from chunk_loop_events[OF ok(1)] obtain m where
    "events w2 = events w @ [Update_progress 0 (int (length (split_into_chunks tok input)) * n)
        (Processing_with n)] @ map (unit_event (int (length (split_into_chunks tok input)) * n)) [0..<m]"
    "length (prompts w2) = length (prompts w) + m"
    by auto
  moreover from ok(2) have "hd (map join_sp av) = join_sp (hd av)" by (cases av) auto
  ultimately show ?thesis using ok(3,4) by (simp add: new_prompts_def)
qed

lemma run_prompts:
  assumes n: "determine_passes st = Inr n"
  shows "(\<forall>i. i * nat n < length (new_prompts w (process_text py cl tok st input w)) \<longrightarrow>
            new_prompts w (process_text py cl tok st input w) ! (i * nat n) =
              PREFIX @ split_into_chunks tok input ! i) \<and>
         (\<forall>i k. k + 1 < nat n \<and>
                i * nat n + k + 1 < length (new_prompts w (process_text py cl tok st input w)) \<longrightarrow>
            candidates cl st (run_params_of tok st input n) (i * nat n + k)
              (new_prompts w (process_text py cl tok st input w) ! (i * nat n + k)) \<noteq> [] \<and>
            new_prompts w (process_text py cl tok st input w) ! (i * nat n + k + 1) =
              PREFIX @ hd (candidates cl st (run_params_of tok st input n) (i * nat n + k)
                             (new_prompts w (process_text py cl tok st input w) ! (i * nat n + k))))"
proof -
  have main: ?thesis if cl: "chunk_loop cl st (run_params_of tok st input n) (split_into_chunks tok input)
         (0, None, [[], [], [], []])
         (schedule (Update_progress 0 (int (length (split_into_chunks tok input)) * n)
            (Processing_with n)) w) = (r, w2)"
     and p: "prompts (process_text py cl tok st input w) = prompts w2" for r w2
  proof -
    from chunk_loop_chain[OF cl] obtain ps where ps:
      "prompts w2 = prompts w @ ps"
      "\<forall>i. i * nat n < length ps \<longrightarrow> ps ! (i * nat n) = PREFIX @ split_into_chunks tok input ! i"
      "\<forall>i k. k + 1 < nat n \<and> i * nat n + k + 1 < length ps \<longrightarrow>
                candidates cl st (run_params_of tok st input n) (0 + i * nat n + k) (ps ! (i * nat n + k)) \<noteq> [] \<and>
                ps ! (i * nat n + k + 1) =
                  PREFIX @ hd (candidates cl st (run_params_of tok st input n) (0 + i * nat n + k)
                                 (ps ! (i * nat n + k)))"
      by auto
    from ps(1) p have "new_prompts w (process_text py cl tok st input w) = ps"
      by (simp add: new_prompts_def)
    with ps(2,3) show ?thesis by simp
  qed
  from n show ?thesis
  proof (cases rule: run_state_cases[where cl=cl and tok=tok and input=input and w=w and py=py])
    case (fail e w2)
    from main[OF fail(1)] fail(3) show ?thesis by simp
  next
    case (ok cc par av w2)
    from main[OF ok(1)] ok(4) show ?thesis by simp
  qed
qed

lemma run_success:
  assumes n: "determine_passes st = Inr n"
    and ok: "fst (process_body cl tok st input w) = Inr ()"
  shows "length (new_prompts w (process_text py cl tok st input w)) =
           length (split_into_chunks tok input) * nat n \<and>
         int (length (new_prompts w (process_text py cl tok st input w))) =
           int (length (split_into_chunks tok input)) * n \<and>
         intermediate_outputs (process_text py cl tok st input w) =
           intermediate_outputs w @
           (if save_intermediate st
            then map (chunk_record cl st (run_params_of tok st input n) (split_into_chunks tok input)
                        (new_prompts w (process_text py cl tok st input w)))
                   [0..<length (split_into_chunks tok input)]
            else [])"
  using n
proof (cases rule: run_state_cases[where cl=cl and tok=tok and input=input and w=w and py=py])
  case (fail e w2)
  with ok show ?thesis by simp
next
  case (ok cc par av w2)
  from chunk_loop_store[OF ok(1)] obtain ps where ps:
    "prompts w2 = prompts w @ ps"
    "length ps = length (split_into_chunks tok input) * nat n"
    "intermediate_outputs w2 =
             intermediate_outputs w @
             (if save_intermediate st
              then map (\<lambda>i. \<lparr>original = split_into_chunks tok input ! i,
                           outputs = map (\<lambda>k. candidates cl st (run_params_of tok st input n) (0 + i * nat n + k)
                                              (ps ! (i * nat n + k)))
                                       [0..<nat n]\<rparr>)
                     [0..<length (split_into_chunks tok input)]
              else [])"
    by auto
  from chunk_loop_events[OF ok(1)] have pos: "split_into_chunks tok input \<noteq> [] \<longrightarrow> 0 < n"
    by auto
  from ps(1) ok(4) have np: "new_prompts w (process_text py cl tok st input w) = ps"
    by (simp add: new_prompts_def)
  have "int (length ps) = int (length (split_into_chunks tok input)) * n"
    using ps(2) pos by (cases "split_into_chunks tok input = []") auto
  with ps ok(4) np show ?thesis by (simp add: chunk_record_def)
qed

lemma run_never_unbound:
  assumes n: "determine_passes st = Inr n" and pos: "0 < n"
  shows "fst (process_body cl tok st input w) \<noteq> Inl UnboundLocalError \<and>
         (split_into_chunks tok input \<noteq> [] \<longrightarrow>
            new_prompts w (process_text py cl tok st input w) \<noteq> [])"
proof -
  have first: "split_into_chunks tok input \<noteq> [] \<longrightarrow> length (prompts w) < length (prompts w2)"
    if "chunk_loop cl st (run_params_of tok st input n) (split_into_chunks tok input)
         (0, None, [[], [], [], []])
         (schedule (Update_progress 0 (int (length (split_into_chunks tok input)) * n)
            (Processing_with n)) w) = (r, w2)" for r w2
  proof (cases "split_into_chunks tok input")
    case Nil
    then show ?thesis by simp
  next
    case (Cons c cs)
    from chunk_loop_first_call[OF that[unfolded Cons]] pos show ?thesis by simp
  qed
  from n show ?thesis
  proof (cases rule: run_state_cases[where cl=cl and tok=tok and input=input and w=w and py=py])
    case (fail e w2)
    from chunk_loop_events[OF fail(1)] pos have "e \<noteq> UnboundLocalError" by auto
    with first[OF fail(1)] fail(2,3) show ?thesis by (auto simp: new_prompts_def)
  next
    case (ok cc par av w2)
    with first[OF ok(1)] show ?thesis by (auto simp: new_prompts_def)
  qed
qed

lemma run_versions:
  assumes n: "determine_passes st = Inr n"
    and ok: "fst (process_body cl tok st input w) = Inr ()"
    and four: "\<forall>u p d. cl u p (num_beams (run_params_of tok st input n))
                 (repetition_penalty (run_params_of tok st input n)) = Inr d \<longrightarrow> length d = 4"
  shows "all_outputs (process_text py cl tok st input w) =
           map (\<lambda>v. join_sp
                  (map (\<lambda>i. candidates cl st (run_params_of tok st input n) (i * nat n + nat n - 1)
                               (new_prompts w (process_text py cl tok st input w) ! (i * nat n + nat n - 1)) ! v)
                     [0..<length (split_into_chunks tok input)]))
             [0..<4]"
  using n
proof (cases rule: run_state_cases[where cl=cl and tok=tok and input=input and w=w and py=py])
  case (fail e w2)
  with ok show ?thesis by simp
next
  case (ok cc par av w2)
  let ?rp = "run_params_of tok st input n"
  let ?chunks = "split_into_chunks tok input"
  show ?thesis
  proof (cases "?chunks = []")
    case True
    with ok(1) have "av = [[], [], [], []]" by simp
    moreover have "[0..<4] = [0, 1, 2, 3::nat]" by (simp add: upt_conv_Cons)
    ultimately show ?thesis using True ok(4) by simp
  next
    case False
    from chunk_loop_events[OF ok(1)] False have pos: "0 < passes ?rp" by auto
    have c: "\<forall>u p d. cl u p (num_beams ?rp) (repetition_penalty ?rp) = Inr d \<longrightarrow>
                length d = length [[], [], [], []::ustr list]"
      using four by simp
    from chunk_loop_versions[OF ok(1) pos c] obtain ps where ps:
      "prompts w2 = prompts w @ ps"
      "av = map (\<lambda>v. [[], [], [], []] ! v @
                       map (\<lambda>i. candidates cl st ?rp (0 + i * nat n + nat n - 1)
                                  (ps ! (i * nat n + nat n - 1)) ! v)
                         [0..<length ?chunks])
                   [0..<length [[], [], [], []::ustr list]]"
      by auto
    from ps(1) ok(4) have np: "new_prompts w (process_text py cl tok st input w) = ps"
      by (simp add: new_prompts_def)
    have "av = map (\<lambda>v. map (\<lambda>i. candidates cl st ?rp (i * nat n + nat n - 1)
                                  (ps ! (i * nat n + nat n - 1)) ! v)
                         [0..<length ?chunks])
                   [0..<4]"
    proof -
      have l4: "length [[], [], [], []::ustr list] = 4" by simp
      have e: "[[], [], [], []::ustr list] ! v = []" if "v < 4" for v
        using that by (auto simp: nth_Cons' )
      show ?thesis
        by (subst ps(2), unfold l4, rule map_cong[OF refl]) (simp add: e)
    qed
    moreover have "all_outputs (process_text py cl tok st input w) = map join_sp av"
      by (simp add: ok(4))
    ultimately show ?thesis unfolding np by (simp add: comp_def)
  qed
qed


lemma greedy_Cons_Oversized [simp]:
  "greedy tok (Oversized s # r) = greedy tok r"
  by (cases r) simp_all

lemma greedy_Packed_Oversized [simp]:
  "greedy tok (Packed a # Oversized s # r) = greedy tok r"
  by simp

lemma tokens_of_simps [simp]:
  "tokens_of tok [] = 0"
  "tokens_of tok (s # ss) = tok (PREFIX @ s) + tokens_of tok ss"
  "tokens_of tok (xs @ ys) = tokens_of tok xs + tokens_of tok ys"
  by (simp_all add: tokens_of_def)

lemma pack_layout:
  assumes "current_tokens = tokens_of tok current_chunk" "current_tokens \<le> 60"
  shows "\<exists>items.
           pack tok sentences chunks current_chunk current_tokens =
             chunks @ concat (map render items) \<and>
           concat (map sentences_in items) = current_chunk @ sentences \<and>
           (\<forall>it \<in> set items. fits tok it) \<and> greedy tok items \<and>
           (current_chunk \<noteq> [] \<longrightarrow>
              (\<exists>more rest. items = Packed (current_chunk @ more) # rest))"
  using assms
proof (induction sentences arbitrary: chunks current_chunk current_tokens)
  case Nil
  show ?case
  proof (cases "current_chunk = []")
    case True
    then show ?thesis by (intro exI[of _ "[]"]) simp
  next
    case False
    with Nil show ?thesis by (intro exI[of _ "[Packed current_chunk]"]) simp
  qed
next
  case (Cons sentence rest)
  let ?n = "tok (PREFIX @ sentence)"
  consider (long_flush) "60 < ?n" "current_chunk \<noteq> []"
    | (long_keep) "60 < ?n" "current_chunk = []"
    | (close) "?n \<le> 60" "60 < current_tokens + ?n"
    | (extend) "?n \<le> 60" "current_tokens + ?n \<le> 60"
    by linarith
  then show ?case
  proof cases
    case long_flush
    have "0 = tokens_of tok []" "(0::nat) \<le> 60" by simp_all
    from Cons.IH[OF this, of "(chunks @ [join_sp current_chunk]) @ re_split_parts [] sentence"]
    obtain items where items:
      "pack tok rest ((chunks @ [join_sp current_chunk]) @ re_split_parts [] sentence) [] 0 =
         ((chunks @ [join_sp current_chunk]) @ re_split_parts [] sentence) @
         concat (map render items)"
      "concat (map sentences_in items) = [] @ rest"
      "\<forall>it \<in> set items. fits tok it" "greedy tok items"
      by blast
    show ?thesis
      using long_flush items Cons.prems
      by (intro exI[of _ "Packed current_chunk # Oversized sentence # items"])
         (simp add: Let_def)
  next
    case long_keep
    from Cons.IH[OF Cons.prems, of "chunks @ re_split_parts [] sentence"]
    obtain items where items:
      "pack tok rest (chunks @ re_split_parts [] sentence) current_chunk current_tokens =
         (chunks @ re_split_parts [] sentence) @ concat (map render items)"
      "concat (map sentences_in items) = current_chunk @ rest"
      "\<forall>it \<in> set items. fits tok it" "greedy tok items"
      by blast
    show ?thesis
      using long_keep items
      by (intro exI[of _ "Oversized sentence # items"]) (simp add: Let_def)
  next
    case close
    have "?n = tokens_of tok [sentence]" by simp
    from Cons.IH[OF this close(1), of "chunks @ [join_sp current_chunk]"]
    obtain items where items:
      "pack tok rest (chunks @ [join_sp current_chunk]) [sentence] ?n =
         (chunks @ [join_sp current_chunk]) @ concat (map render items)"
      "concat (map sentences_in items) = [sentence] @ rest"
      "\<forall>it \<in> set items. fits tok it" "greedy tok items"
      "\<exists>more r. items = Packed ([sentence] @ more) # r"
      by blast
    from items(5) obtain more r where mr: "items = Packed (sentence # more) # r" by auto
    from close Cons.prems(1) have ne: "current_chunk \<noteq> []" by (cases current_chunk) auto
    show ?thesis
      using close items(1-4) mr ne Cons.prems
      by (intro exI[of _ "Packed current_chunk # items"]) (simp add: Let_def)
  next
    case extend
    have "current_tokens + ?n = tokens_of tok (current_chunk @ [sentence])"
      using Cons.prems(1) by simp
    from Cons.IH[OF this extend(2), of chunks]
    obtain items where items:
      "pack tok rest chunks (current_chunk @ [sentence]) (current_tokens + ?n) =
         chunks @ concat (map render items)"
      "concat (map sentences_in items) = (current_chunk @ [sentence]) @ rest"
      "\<forall>it \<in> set items. fits tok it" "greedy tok items"
      "\<exists>more r. items = Packed ((current_chunk @ [sentence]) @ more) # r"
      by blast
    show ?thesis
      using extend items
      by (intro exI[of _ items]) (auto simp: Let_def)
  qed
qed

lemma sentences_two:
  "sentences_of two_sentences =
     [ustr ''The quick brown fox jumps over it.'', ustr ''A lazy dog sleeps under the tree.'']"
  by (simp add: two_sentences_def sentences_of_def strip_def char_defs)

lemma chunks_two:
  "split_into_chunks sample_tokenizer two_sentences =
     [ustr ''The quick brown fox jumps over it.'', ustr ''A lazy dog sleeps under the tree.'']"
  unfolding split_into_chunks_def sentences_two
  by (simp add: sample_tokenizer_def PREFIX_def ustr_def)




lemma passes_maximum: "determine_passes maximum_settings = Inr 2"
  by (simp add: maximum_settings_def update_strength_def determine_passes_def default_settings_def
        passes_table_def ustr_def)


lemma passes_custom3: "determine_passes (custom_settings ''3'') = Inr 3"
  by (simp add: custom_settings_def toggle_custom_passes_def update_passes_def determine_passes_def
        default_settings_def ascii_int_def ascii_isdigit_def strip_def char_defs)


lemma humanize_1: "humanize_output True (ustr ''The quick brown fox jumps over it.A'') = ustr ''The quick brown fox jumps over it.A''"
  by (simp add: humanize_output_def remove_dashes_steps_def strip_def sub_dash_def char_defs)

lemma humanize_dash:
  "humanize_output True [65, 32, 8212, 32, 66, 46] = ustr ''A, B.''"
  "humanize_output True [65, 8212, 66, 46] = ustr ''A, B.''"
  "humanize_output True [120] = [120]"
  "humanize_output True [121] = [121]"
  by (simp_all add: humanize_output_def remove_dashes_steps_def strip_def sub_dash_def char_defs)


lemma sample_client_answers: "answers sample_client rp hi"
  by (simp add: answers_def sample_client_def)



lemma hd_candidates_sample:
  "hd (candidates sample_client st rp u (PREFIX @ x)) = humanize_output (remove_dashes st) (x @ [65])"
  by (simp add: candidates_def sample_client_def)

lemma candidates_dash:
  "remove_dashes st \<Longrightarrow>
   candidates dash_client st rp u p = [ustr ''A, B.'', ustr ''A, B.'', [120], [121]]"
  by (simp add: candidates_def dash_client_def humanize_dash)

lemma remove_dashes_samples [simp]:
  "remove_dashes maximum_settings" "remove_dashes (custom_settings e)" "remove_dashes default_settings"
  "save_intermediate maximum_settings" "save_intermediate (custom_settings e)"
  "save_intermediate default_settings"
  by (simp_all add: maximum_settings_def custom_settings_def default_settings_def update_strength_def
        toggle_custom_passes_def update_passes_def Let_def split: option.splits)

lemma humanize_2:
  "humanize_output True (ustr ''The quick brown fox jumps over it.AA'') =
     ustr ''The quick brown fox jumps over it.AA''"
  "humanize_output True (ustr ''A lazy dog sleeps under the tree.A'') =
     ustr ''A lazy dog sleeps under the tree.A''"
  by (simp_all add: humanize_output_def remove_dashes_steps_def strip_def sub_dash_def char_defs)

lemma joined_le_tokens:
  assumes "subadditive tok" and "ss \<noteq> []"
  shows "tok (PREFIX @ join_sp ss) \<le> tokens_of tok ss"
  using assms(2)
proof (induction ss rule: join_sp.induct)
  case 1
  then show ?case by simp
next
  case (2 x)
  then show ?case by (simp add: tokens_of_def)
next
  case (3 x y zs)
  from assms(1) have "tok (PREFIX @ x @ SPACE # join_sp (y # zs)) \<le>
      tok (PREFIX @ x) + tok (PREFIX @ join_sp (y # zs))"
    unfolding subadditive_def by blast
  with 3 show ?case by (simp add: tokens_of_def)
qed

lemma subadditive_sample: "subadditive sample_tokenizer"
  by (simp add: subadditive_def sample_tokenizer_def PREFIX_def ustr_def)

lemma sentences_short:
  "sentences_of short_sentences =
     [ustr ''Go on.'', ustr ''Stop it.'', ustr ''Now go.'', ustr ''Then rest.'']"
  by (simp add: short_sentences_def sentences_of_def strip_def char_defs)

lemma chunks_short:
  "split_into_chunks sample_tokenizer short_sentences =
     [ustr ''Go on. Stop it. Now go.'', ustr ''Then rest.'']"
  unfolding split_into_chunks_def sentences_short
  by (simp add: sample_tokenizer_def PREFIX_def ustr_def SPACE_def)

lemma sentences_long:
  "sentences_of long_sentences =
     [ustr ''Aaaaaaaaa bbbbbbbbb ccccccccc.'', ustr ''Ddddddddd eeeeeeeee fffffffff.'']"
  by (simp add: long_sentences_def sentences_of_def strip_def char_defs)

lemma sentences_gapped: "sentences_of gapped_sentence = [gapped_sentence]"
  by (simp add: gapped_sentence_def sentences_of_def strip_def char_defs)

lemma parts_gapped:
  "re_split_parts [] gapped_sentence =
     [ustr ''One two three four five six seven eight nine'', [], ustr ''ten eleven twelve.'']"
  by (simp add: gapped_sentence_def char_defs)

lemma unlines_simps [simp]:
  "unlines [] = []" "unlines (l # ls) = l @ 10 # unlines ls"
  "unlines (a @ b) = unlines a @ unlines b"
  by (simp_all add: unlines_def)

lemma unlines_concat: "unlines (concat xss) = concat (map unlines xss)"
  by (induction xss) simp_all

lemma lines_from_line:
  "10 \<notin> set l \<Longrightarrow> lines_from acc (l @ 10 # rest) = (acc @ l) # lines_from [] rest"
  by (induction l arbitrary: acc) auto

lemma lines_from_unlines:
  "\<forall>l \<in> set ls. one_line l \<Longrightarrow> lines_from [] (unlines ls) = ls"
proof (induction ls)
  case Nil
  show ?case by simp
next
  case (Cons l ls)
  then have "10 \<notin> set l" by (simp add: one_line_def)
  from lines_from_line[OF this, of "[]" "unlines ls"] Cons show ?case by simp
qed

lemma version_line_text: "txt_version_line jo = version_text jo @ [10]"
  by (simp add: txt_version_line_def version_text_def)

lemma pass_text: "concat (txt_pass po) = unlines (pass_lines po)"
proof -
  have "concat (map txt_version_line xs) = unlines (map version_text xs)" for xs
    by (induction xs) (simp_all add: version_line_text)
  then show ?thesis by (simp add: txt_pass_def pass_lines_def)
qed

lemma chunk_text: "concat (txt_chunk ic) = unlines (chunk_lines ic)"
proof -
  have "concat (concat (map txt_pass xs)) = unlines (concat (map pass_lines xs))" for xs
    by (induction xs) (simp_all add: pass_text)
  then show ?thesis by (simp add: txt_chunk_def chunk_lines_def rule_line_def)
qed

lemma final_text: "concat (txt_final io) = unlines (final_lines io)"
  by (simp add: txt_final_def final_lines_def rule_line_def)

lemma chunks_text: "concat (concat (map txt_chunk xs)) = unlines (concat (map chunk_lines xs))"
  by (induction xs) (simp_all add: chunk_text)

lemma finals_text: "concat (concat (map txt_final xs)) = unlines (concat (map final_lines xs))"
  by (induction xs) (simp_all add: final_text)

lemma header_text:
  "concat (txt_header timestamp (strength st) (custom_passes st) (use_custom_passes st)
             (remove_dashes st)) = unlines (header_lines timestamp st)"
  by (simp add: txt_header_def header_lines_def rule_line_def)

lemma txt_file_lines: "txt_file timestamp st w = unlines (txt_lines timestamp st w)"
  unfolding txt_file_def txt_export_def txt_lines_def
  by (simp add: header_text chunks_text finals_text final_heading_def rule_line_def
        del: unlines_simps(2)) (simp add: ustr_def)

lemma str_nat_digits: "\<forall>c \<in> set (str_nat n). is_digit c"
proof (induction n rule: str_nat.induct)
  case (1 n)
  show ?case
  proof (cases "n < 10")
    case True
    then show ?thesis by (subst str_nat.simps) (simp add: is_digit_def)
  next
    case False
    have "n mod 10 < 10" by simp
    then have "is_digit (48 + n mod 10)" unfolding is_digit_def by linarith
    with 1[OF False] False show ?thesis by (subst str_nat.simps) simp
  qed
qed

lemma str_nat_nonempty: "str_nat n \<noteq> []"
  by (subst str_nat.simps) simp

lemma read_nat_snoc: "read_nat (s @ [c]) = 10 * read_nat s + (c - 48)"
  by (simp add: read_nat_def)

lemma read_nat_str_nat: "read_nat (str_nat n) = n"
proof (induction n rule: str_nat.induct)
  case (1 n)
  show ?case
  proof (cases "n < 10")
    case True
    then show ?thesis by (subst str_nat.simps) (simp add: read_nat_def)
  next
    case False
    with 1[OF False] show ?thesis
      by (subst str_nat.simps) (simp add: read_nat_snoc del: str_nat.simps)
  qed
qed

lemma read_int_str_int: "read_int (str_int i) = i"
proof (cases "i < 0")
  case True
  then show ?thesis by (simp add: read_int_def str_int_def read_nat_str_nat del: str_nat.simps)
next
  case False
  obtain c r where cr: "str_nat (nat i) = c # r"
    using str_nat_nonempty[of "nat i"] by (cases "str_nat (nat i)") auto
  with str_nat_digits[of "nat i"] have "is_digit c" by simp
  then have "c \<noteq> 45" by (auto simp: is_digit_def)
  with False cr read_nat_str_nat[of "nat i"] show ?thesis
    by (simp add: read_int_def str_int_def del: str_nat.simps)
qed

lemma one_line_str_nat: "one_line (str_nat n)"
  using str_nat_digits[of n] by (auto simp: one_line_def is_digit_def)

lemma one_line_str_int: "one_line (str_int i)"
  using one_line_str_nat by (simp add: str_int_def one_line_def del: str_nat.simps)

lemma one_line_str_bool: "one_line (str_bool b)"
  by (simp add: str_bool_def one_line_def ustr_def)

lemma one_line_append [simp]: "one_line (a @ b) \<longleftrightarrow> one_line a \<and> one_line b"
  by (auto simp: one_line_def)

lemma one_line_simps [simp]: "one_line []" "one_line (replicate n 45)" "one_line (replicate n 61)"
  by (simp_all add: one_line_def)

lemma dropWhile_digits:
  "\<forall>c \<in> set ds. is_digit c \<Longrightarrow> \<not> is_digit x \<Longrightarrow> dropWhile is_digit (ds @ x # r) = x # r"
  by (induction ds) simp_all

lemma read_version_text: "read_version (version_text (j, c)) = take 100 c"
proof -
  have d: "drop 12 (version_text (j, c)) =
      str_nat (j + 1) @ 58 # 32 # take 100 c @ ustr ''...''"
    by (simp add: version_text_def ustr_def del: str_nat.simps)
  have "\<not> is_digit 58" by (simp add: is_digit_def)
  from dropWhile_digits[OF str_nat_digits this]
  have "dropWhile is_digit (drop 12 (version_text (j, c))) = 58 # 32 # take 100 c @ ustr ''...''"
    unfolding d .
  then show ?thesis by (simp add: read_version_def ustr_def min_def)
qed

lemma is_version_line_text: "is_version_line (version_text jo)"
  by (simp add: is_version_line_def version_text_def ustr_def del: str_nat.simps)

lemma not_version_line_Nil: "\<not> is_version_line []"
  by (simp add: is_version_line_def ustr_def)

lemma takeWhile_versions:
  "takeWhile is_version_line (map version_text xs @ [] # t) = map version_text xs"
  "dropWhile is_version_line (map version_text xs @ [] # t) = [] # t"
  by (induction xs) (simp_all add: is_version_line_text not_version_line_Nil)

lemma read_version_map:
  "map (read_version \<circ> version_text) (enumerate k p) = map (take 100) p"
  by (induction p arbitrary: k) (simp_all add: read_version_text)

lemma pass_lines_head:
  "\<exists>t. concat (map pass_lines (enumerate k ps)) @ [] # h # rest = [] # t"
  by (cases ps) (simp_all add: pass_lines_def)

lemma read_passes_lines:
  assumes "take 6 h \<noteq> ustr ''  Pass''"
  shows "read_passes (concat (map pass_lines (enumerate k ps)) @ [] # h # rest) =
           (map (map (take 100)) ps, [] # h # rest)"
proof (induction ps arbitrary: k)
  case Nil
  from assms show ?case by simp
next
  case (Cons p ps)
  obtain t where t: "concat (map pass_lines (enumerate (Suc k) ps)) @ [] # h # rest = [] # t"
    using pass_lines_head by blast
  have "read_passes (concat (map pass_lines (enumerate k (p # ps))) @ [] # h # rest) =
        read_passes ([] # (ustr ''  Pass '' @ str_nat (k + 1) @ ustr '':'') #
                     (map version_text (enumerate 0 p) @ [] # t))"
    by (simp add: pass_lines_def t del: str_nat.simps read_passes.simps)
  also have "\<dots> = (map (map (take 100)) (p # ps), [] # h # rest)"
    using Cons[of "Suc k"] unfolding t
    by (simp add: takeWhile_versions read_version_map ustr_def del: str_nat.simps)
  finally show ?case .
qed

lemma chunk_lines_head:
  "\<exists>x t. concat (map chunk_lines (enumerate k cs)) @ [] # rest = x # t \<and>
         take 6 x \<noteq> ustr ''  Pass''"
  by (cases cs) (simp_all add: chunk_lines_def ustr_def del: str_nat.simps)

lemma read_chunks_Nil: "read_chunks ([] # rest) = ([], [] # rest)"
  by (cases rest) (simp_all add: ustr_def)

lemma read_chunks_lines:
  "read_chunks (concat (map chunk_lines (enumerate k cs)) @ [] # rest) =
     (map (map (map (take 100))) cs, [] # rest)"
proof (induction cs arbitrary: k)
  case Nil
  show ?case by (simp add: read_chunks_Nil del: read_chunks.simps)
next
  case (Cons c cs)
  obtain x t where t: "concat (map chunk_lines (enumerate (Suc k) cs)) @ [] # rest = x # t"
    and x: "take 6 x \<noteq> ustr ''  Pass''"
    using chunk_lines_head by blast
  have "read_chunks (concat (map chunk_lines (enumerate k (c # cs))) @ [] # rest) =
        read_chunks ((ustr ''CHUNK '' @ str_nat (k + 1) @ ustr '':'') # replicate 30 45 #
                     (concat (map pass_lines (enumerate 0 c)) @ [] # x # t))"
    by (simp add: chunk_lines_def t del: str_nat.simps read_chunks.simps)
  also have "\<dots> = (map (map (map (take 100))) (c # cs), [] # rest)"
    using Cons[of "Suc k"] unfolding t
    by (simp add: read_passes_lines[OF x] ustr_def del: str_nat.simps)
  finally show ?case .
qed

lemma read_finals_lines: "read_finals (concat (map final_lines (enumerate k fs))) = fs"
  by (induction fs arbitrary: k) (simp_all add: final_lines_def del: str_nat.simps)

lemma one_line_version:
  "one_line (take 100 c) \<Longrightarrow> one_line (version_text (j, c))"
  by (simp add: version_text_def one_line_str_nat del: str_nat.simps) (simp add: one_line_def ustr_def)

lemma one_line_pass:
  assumes "\<forall>c \<in> set p. one_line (take 100 c)"
  shows "\<forall>l \<in> set (pass_lines (k, p)). one_line l"
proof -
  have "\<forall>l \<in> set (map version_text (enumerate j p)). one_line l" for j
    using assms by (induction p arbitrary: j) (simp_all add: one_line_version)
  then show ?thesis
    by (simp add: pass_lines_def one_line_str_nat del: str_nat.simps) (simp add: one_line_def ustr_def)
qed

lemma one_line_chunk:
  assumes "\<forall>p \<in> set c. \<forall>x \<in> set p. one_line (take 100 x)"
  shows "\<forall>l \<in> set (chunk_lines (k, c)). one_line l"
proof -
  have "\<forall>l \<in> set (concat (map pass_lines (enumerate j c))). one_line l" for j
    using assms
  proof (induction c arbitrary: j)
    case Nil
    show ?case by simp
  next
    case (Cons p c)
    from Cons.prems one_line_pass[of p j] have "\<forall>l \<in> set (pass_lines (j, p)). one_line l" by simp
    with Cons.IH[of "Suc j"] Cons.prems show ?case by auto
  qed
  then show ?thesis
    by (simp add: chunk_lines_def one_line_str_nat del: str_nat.simps) (simp add: one_line_def ustr_def)
qed

lemma one_line_chunks:
  assumes "\<forall>c \<in> set cs. \<forall>p \<in> set c. \<forall>x \<in> set p. one_line (take 100 x)"
  shows "\<forall>l \<in> set (concat (map chunk_lines (enumerate k cs))). one_line l"
  using assms
proof (induction cs arbitrary: k)
  case Nil
  show ?case by simp
next
  case (Cons c cs)
  from Cons.prems one_line_chunk[of c k] have "\<forall>l \<in> set (chunk_lines (k, c)). one_line l" by simp
  with Cons.IH[of "Suc k"] Cons.prems show ?case by auto
qed

lemma one_line_finals:
  assumes "\<forall>f \<in> set fs. one_line f"
  shows "\<forall>l \<in> set (concat (map final_lines (enumerate k fs))). one_line l"
  using assms
proof (induction fs arbitrary: k)
  case Nil
  show ?case by simp
next
  case (Cons f fs)
  have "\<forall>l \<in> set (final_lines (k, f)). one_line l"
    using Cons.prems
    by (simp add: final_lines_def one_line_str_nat del: str_nat.simps) (simp add: one_line_def ustr_def)
  with Cons.IH[of "Suc k"] Cons.prems show ?case by auto
qed

lemma one_line_header:
  assumes "one_line timestamp" "one_line (strength st)"
  shows "\<forall>l \<in> set (header_lines timestamp st). one_line l"
  using assms
  by (simp add: header_lines_def one_line_str_int one_line_str_bool) (simp add: one_line_def ustr_def)

lemma one_line_heading: "\<forall>l \<in> set final_heading. one_line l"
  by (simp add: final_heading_def) (simp add: one_line_def ustr_def)

lemma str_bool_True: "str_bool b = ustr ''True'' \<longleftrightarrow> b"
  by (simp add: str_bool_def ustr_def)

lemma read_flat_lines:
  assumes "one_line timestamp" and "one_line (strength st)"
    and "\<forall>cd \<in> set (intermediate_outputs w). \<forall>p \<in> set (outputs cd). \<forall>c \<in> set p.
           one_line (take 100 c)"
    and "\<forall>f \<in> set (all_outputs w). one_line f"
  shows "read_flat (txt_file timestamp st w) =
           \<lparr>fc_timestamp = timestamp, fc_strength = strength st,
            fc_custom_passes = custom_passes st,
            fc_use_custom_passes = use_custom_passes st,
            fc_remove_dashes = remove_dashes st,
            fc_candidates =
              map (\<lambda>cd. map (map (take 100)) (outputs cd)) (intermediate_outputs w),
            fc_final_outputs = all_outputs w\<rparr>"
proof -
  let ?cs = "map outputs (intermediate_outputs w)"
  let ?body = "concat (map chunk_lines (enumerate 0 ?cs)) @ final_heading @
               concat (map final_lines (enumerate 0 (all_outputs w)))"
  from assms(3) have "\<forall>c \<in> set ?cs. \<forall>p \<in> set c. \<forall>x \<in> set p. one_line (take 100 x)"
    by simp
  from one_line_chunks[OF this, of 0] one_line_finals[OF assms(4), of 0]
    one_line_header[OF assms(1,2)] one_line_heading
  have "\<forall>l \<in> set (txt_lines timestamp st w). one_line l"
    unfolding txt_lines_def by auto
  from lines_from_unlines[OF this]
  have ls: "lines_from [] (txt_file timestamp st w) = header_lines timestamp st @ ?body"
    by (simp add: txt_file_lines txt_lines_def)
  have len: "length (header_lines timestamp st) = 12" by (simp add: header_lines_def)
  have d: "drop 12 (header_lines timestamp st @ ?body) = ?body" using len by simp
  have b: "read_chunks ?body =
      (map (map (map (take 100))) ?cs,
       [] # [ustr ''FINAL OUTPUTS:'', replicate 50 61, []] @
         concat (map final_lines (enumerate 0 (all_outputs w))))"
    using read_chunks_lines[of 0 ?cs] by (simp add: final_heading_def del: read_chunks.simps)
  have n: "(header_lines timestamp st @ ?body) ! 0 = ustr ''Intermediate Outputs - '' @ timestamp"
    "(header_lines timestamp st @ ?body) ! 4 = ustr ''  Strength: '' @ strength st"
    "(header_lines timestamp st @ ?body) ! 5 = ustr ''  Custom Passes: '' @ str_int (custom_passes st)"
    "(header_lines timestamp st @ ?body) ! 6 =
       ustr ''  Use Custom Passes: '' @ str_bool (use_custom_passes st)"
    "(header_lines timestamp st @ ?body) ! 7 = ustr ''  Remove Dashes: '' @ str_bool (remove_dashes st)"
    by (simp_all add: header_lines_def)
  have p: "drop 23 (ustr ''Intermediate Outputs - '' @ timestamp) = timestamp"
    "drop 12 (ustr ''  Strength: '' @ strength st) = strength st"
    "drop 17 (ustr ''  Custom Passes: '' @ str_int (custom_passes st)) = str_int (custom_passes st)"
    "drop 21 (ustr ''  Use Custom Passes: '' @ str_bool (use_custom_passes st)) =
       str_bool (use_custom_passes st)"
    "drop 17 (ustr ''  Remove Dashes: '' @ str_bool (remove_dashes st)) = str_bool (remove_dashes st)"
    by (simp_all add: ustr_def)
  show ?thesis
    unfolding read_flat_def ls Let_def d b n p
    by (simp add: read_int_str_int str_bool_True read_finals_lines comp_def
          del: read_chunks.simps)
qed

section \<open>The claims\<close>

subsection \<open>Post-processor: applying it twice\<close>

text \<open>
  C1: the post-processor is not idempotent when dashes are removed. The substitution that
  is commented ``clean up any double commas'' replaces non-overlapping matches only, so
  three separators in a row leave two. For the text \<^verbatim>\<open>a\<close>, three em-dashes separated by
  single spaces, \<^verbatim>\<open>b\<close>, the post-processor returns \<^verbatim>\<open>a, , b\<close>, which still holds a double
  comma; applied to that result it returns \<^verbatim>\<open>a, b\<close>.
\<close>

theorem humanize_output_not_idempotent:
  "humanize_output True (ustr ''a '' @ [EM_DASH, SPACE, EM_DASH, SPACE, EM_DASH] @ ustr '' b'') =
     ustr ''a, , b'' \<and>
   humanize_output True (ustr ''a, , b'') = ustr ''a, b''"
  by (simp add: humanize_output_def remove_dashes_steps_def strip_def sub_dash_def char_defs)

subsection \<open>Strength table\<close>

text \<open>
  C2: the strength table is exact. Standard gives 4 beams, penalty 10 and 1 pass; High
  gives 8 beams, penalty 12 and 1 pass; Maximum gives 10 beams, penalty 15 and 2 passes;
  with custom passes enabled the pass count is the custom value.
\<close>

theorem strength_parameter_table:
  "beam_params (ustr ''Standard'') = (4, 10) \<and>
   beam_params (ustr ''High'') = (8, 12) \<and>
   beam_params (ustr ''Maximum'') = (10, 15) \<and>
   determine_passes (st\<lparr>use_custom_passes := False, strength := ustr ''Standard''\<rparr>) = Inr 1 \<and>
   determine_passes (st\<lparr>use_custom_passes := False, strength := ustr ''High''\<rparr>) = Inr 1 \<and>
   determine_passes (st\<lparr>use_custom_passes := False, strength := ustr ''Maximum''\<rparr>) = Inr 2 \<and>
   determine_passes (st\<lparr>use_custom_passes := True\<rparr>) = Inr (custom_passes st)"
  by (simp add: beam_params_def determine_passes_def passes_table_def ustr_def)

subsection \<open>Input of the next pass\<close>

text \<open>
  C3: in a run with pass count \<open>n\<close>, the calls of the generation client come in groups of
  \<open>n\<close>, one group per chunk. The first prompt of the group of chunk \<open>i\<close> is the prefix
  followed by the chunk; and whenever pass \<open>k + 1\<close> of chunk \<open>i\<close> is called with
  \<open>k + 1 < n\<close>, pass \<open>k\<close> has returned candidates and the prompt of pass \<open>k + 1\<close> is the
  prefix followed by the first post-processed candidate of pass \<open>k\<close>, unchanged. A run
  that succeeds makes exactly \<open>chunks * n\<close> calls and, when intermediate outputs are
  saved, adds to the store one record per chunk holding the candidates of every pass. A
  run succeeds when \<open>n\<close> is positive and the client answers every one of these calls.
\<close>

theorem next_pass_input:
  assumes "determine_passes st = Inr n"
  shows "(\<forall>i. i * nat n < length (new_prompts w (process_text py cl tok st input w)) \<longrightarrow>
            new_prompts w (process_text py cl tok st input w) ! (i * nat n) =
              PREFIX @ split_into_chunks tok input ! i) \<and>
         (\<forall>i k. k + 1 < nat n \<and>
                i * nat n + k + 1 < length (new_prompts w (process_text py cl tok st input w)) \<longrightarrow>
            candidates cl st (run_params_of tok st input n) (i * nat n + k)
              (new_prompts w (process_text py cl tok st input w) ! (i * nat n + k)) \<noteq> [] \<and>
            new_prompts w (process_text py cl tok st input w) ! (i * nat n + k + 1) =
              PREFIX @ hd (candidates cl st (run_params_of tok st input n) (i * nat n + k)
                             (new_prompts w (process_text py cl tok st input w) ! (i * nat n + k)))) \<and>
         (fst (process_body cl tok st input w) = Inr () \<longrightarrow>
            length (new_prompts w (process_text py cl tok st input w)) =
              length (split_into_chunks tok input) * nat n \<and>
            intermediate_outputs (process_text py cl tok st input w) =
              intermediate_outputs w @
              (if save_intermediate st
               then map (chunk_record cl st (run_params_of tok st input n) (split_into_chunks tok input)
                           (new_prompts w (process_text py cl tok st input w)))
                      [0..<length (split_into_chunks tok input)]
               else [])) \<and>
         (0 < n \<and>
          answers cl (run_params_of tok st input n) (length (split_into_chunks tok input) * nat n) \<longrightarrow>
            fst (process_body cl tok st input w) = Inr ())"
  using run_prompts[OF assms, of w py cl tok input] run_success[OF assms, of cl tok input w py]
    run_succeeds[OF assms, of cl tok input w]
  by blast

text \<open>
  Two chunks and three custom passes, with the sample client that appends a letter: the
  six prompts of the run.
\<close>

theorem next_pass_input_witness:
  "new_prompts initial_state
     (process_text sample_texts sample_client sample_tokenizer (custom_settings ''3'')
        two_sentences initial_state) =
   [PREFIX @ ustr ''The quick brown fox jumps over it.'',
    PREFIX @ ustr ''The quick brown fox jumps over it.A'',
    PREFIX @ ustr ''The quick brown fox jumps over it.AA'',
    PREFIX @ ustr ''A lazy dog sleeps under the tree.'',
    PREFIX @ ustr ''A lazy dog sleeps under the tree.A'',
    PREFIX @ ustr ''A lazy dog sleeps under the tree.AA'']"
proof -
  let ?ps = "new_prompts initial_state
     (process_text sample_texts sample_client sample_tokenizer (custom_settings ''3'')
        two_sentences initial_state)"
  let ?rp = "run_params_of sample_tokenizer (custom_settings ''3'') two_sentences 3"
  note t = next_pass_input[OF passes_custom3, of initial_state sample_texts sample_client
      sample_tokenizer two_sentences]
  from t sample_client_answers
  have ok: "fst (process_body sample_client sample_tokenizer (custom_settings ''3'') two_sentences
                initial_state) = Inr ()" by simp
  with t have l: "length ?ps = 6" by (simp add: chunks_two)
  from t have first: "\<forall>i. i * nat 3 < length ?ps \<longrightarrow>
      ?ps ! (i * nat 3) = PREFIX @ split_into_chunks sample_tokenizer two_sentences ! i"
    and chain: "\<forall>i k. k + 1 < nat 3 \<and> i * nat 3 + k + 1 < length ?ps \<longrightarrow>
            candidates sample_client (custom_settings ''3'') ?rp (i * nat 3 + k)
              (?ps ! (i * nat 3 + k)) \<noteq> [] \<and>
            ?ps ! (i * nat 3 + k + 1) =
              PREFIX @ hd (candidates sample_client (custom_settings ''3'') ?rp (i * nat 3 + k)
                             (?ps ! (i * nat 3 + k)))"
    by blast+
  from first[rule_format, of 0] l have p0: "?ps ! 0 = PREFIX @ ustr ''The quick brown fox jumps over it.''"
    by (simp add: chunks_two)
  from first[rule_format, of 1] l have p3: "?ps ! 3 = PREFIX @ ustr ''A lazy dog sleeps under the tree.''"
    by (simp add: chunks_two)
  have h0: "humanize_output True (ustr ''The quick brown fox jumps over it.'' @ [65]) =
      ustr ''The quick brown fox jumps over it.A''"
    using humanize_1 by (simp add: ustr_def)
  have h1: "humanize_output True (ustr ''The quick brown fox jumps over it.A'' @ [65]) =
      ustr ''The quick brown fox jumps over it.AA''"
    using humanize_2(1) by (simp add: ustr_def)
  have h3: "humanize_output True (ustr ''A lazy dog sleeps under the tree.'' @ [65]) =
      ustr ''A lazy dog sleeps under the tree.A''"
    using humanize_2(2) by (simp add: ustr_def)
  have h4: "humanize_output True (ustr ''A lazy dog sleeps under the tree.A'' @ [65]) =
      ustr ''A lazy dog sleeps under the tree.AA''"
    by (simp add: humanize_output_def remove_dashes_steps_def strip_def sub_dash_def char_defs)
  from chain[rule_format, where i=0 and k=0] l
  have p1: "?ps ! Suc 0 = PREFIX @ ustr ''The quick brown fox jumps over it.A''"
    by (simp add: p0 hd_candidates_sample h0)
  from chain[rule_format, where i=0 and k=1] l
  have p2: "?ps ! Suc (Suc 0) = PREFIX @ ustr ''The quick brown fox jumps over it.AA''"
    by (simp add: p1 hd_candidates_sample h1)
  from chain[rule_format, where i=1 and k=0] l
  have p4: "?ps ! 4 = PREFIX @ ustr ''A lazy dog sleeps under the tree.A''"
    by (simp add: p3 hd_candidates_sample h3)
  from chain[rule_format, where i=1 and k=1] l
  have p5: "?ps ! 5 = PREFIX @ ustr ''A lazy dog sleeps under the tree.AA''"
    by (simp add: p4 hd_candidates_sample h4)
  have "?ps = [?ps ! 0, ?ps ! Suc 0, ?ps ! Suc (Suc 0), ?ps ! 3, ?ps ! 4, ?ps ! 5]"
    using l by (intro nth_equalityI) (auto simp: nth_Cons' less_Suc_eq numeral_eq_Suc)
  then show ?thesis unfolding p0 p1 p2 p3 p4 p5 .
qed

subsection \<open>Progress events\<close>

text \<open>
  C4: the events that a run with pass count \<open>n\<close> adds are exactly: the progress call
  \<open>(0, total)\<close> where \<open>total\<close> is the number of chunks times \<open>n\<close>; then, for every call
  \<open>k = 0, 1, ...\<close> made to the generation client, in order, the progress call \<open>(k, total)\<close>
  labelled with unit \<open>k + 1\<close> of \<open>total\<close>; then, on failure, the error message and nothing
  else, and on success the progress call \<open>(total, total)\<close> labelled complete followed by
  the display of the first version. A run that succeeds has made exactly \<open>total\<close> calls,
  so its unit events count \<open>0, 1, ..., total - 1\<close>. A run succeeds when \<open>n\<close> is positive
  and the client answers every one of these calls.
\<close>

theorem progress_events_of_run:
  assumes "determine_passes st = Inr n"
  shows "events (process_text py cl tok st input w) =
           events w @
           [Update_progress 0 (int (length (split_into_chunks tok input)) * n) (Processing_with n)] @
           map (unit_event (int (length (split_into_chunks tok input)) * n))
             [0..<length (new_prompts w (process_text py cl tok st input w))] @
           (case fst (process_body cl tok st input w) of
              Inl e \<Rightarrow> [Update_output (error_msg py e) False]
            | Inr u \<Rightarrow>
                [Update_progress (int (length (split_into_chunks tok input)) * n)
                   (int (length (split_into_chunks tok input)) * n) Complete,
                 Update_output (hd (all_outputs (process_text py cl tok st input w))) True]) \<and>
         (fst (process_body cl tok st input w) = Inr () \<longrightarrow>
            length (new_prompts w (process_text py cl tok st input w)) =
              length (split_into_chunks tok input) * nat n \<and>
            int (length (new_prompts w (process_text py cl tok st input w))) =
              int (length (split_into_chunks tok input)) * n) \<and>
         (0 < n \<and>
          answers cl (run_params_of tok st input n) (length (split_into_chunks tok input) * nat n) \<longrightarrow>
            fst (process_body cl tok st input w) = Inr ())"
  using run_events[OF assms, of py cl tok input w] run_success[OF assms, of cl tok input w py]
    run_succeeds[OF assms, of cl tok input w]
  by blast

text \<open>
  Two chunks at strength Maximum (two passes): the seven events of the run.
\<close>

theorem progress_events_of_run_witness:
  "events (process_text sample_texts sample_client sample_tokenizer maximum_settings two_sentences
             initial_state) =
     [Update_progress 0 4 (Processing_with 2),
      Update_progress 0 4 (Processing_chunk 1 4), Update_progress 1 4 (Processing_chunk 2 4),
      Update_progress 2 4 (Processing_chunk 3 4), Update_progress 3 4 (Processing_chunk 4 4),
      Update_progress 4 4 Complete,
      Update_output
        (hd (all_outputs (process_text sample_texts sample_client sample_tokenizer maximum_settings
                            two_sentences initial_state))) True]"
proof -
  note t = progress_events_of_run[OF passes_maximum, of sample_texts sample_client sample_tokenizer
      two_sentences initial_state]
  from t sample_client_answers
  have ok: "fst (process_body sample_client sample_tokenizer maximum_settings two_sentences
                   initial_state) = Inr ()" by simp
  with t have len: "length (new_prompts initial_state
      (process_text sample_texts sample_client sample_tokenizer maximum_settings two_sentences
         initial_state)) = length (split_into_chunks sample_tokenizer two_sentences) * nat 2"
    by blast
  from t have "events (process_text sample_texts sample_client sample_tokenizer maximum_settings
      two_sentences initial_state) =
           events initial_state @
           [Update_progress 0 (int (length (split_into_chunks sample_tokenizer two_sentences)) * 2)
              (Processing_with 2)] @
           map (unit_event (int (length (split_into_chunks sample_tokenizer two_sentences)) * 2))
             [0..<length (new_prompts initial_state (process_text sample_texts sample_client
                  sample_tokenizer maximum_settings two_sentences initial_state))] @
           (case fst (process_body sample_client sample_tokenizer maximum_settings two_sentences
                        initial_state) of
              Inl e \<Rightarrow> [Update_output (error_msg sample_texts e) False]
            | Inr u \<Rightarrow>
                [Update_progress (int (length (split_into_chunks sample_tokenizer two_sentences)) * 2)
                   (int (length (split_into_chunks sample_tokenizer two_sentences)) * 2) Complete,
                 Update_output (hd (all_outputs (process_text sample_texts sample_client
                    sample_tokenizer maximum_settings two_sentences initial_state))) True])"
    by blast
  then show ?thesis
    unfolding ok len chunks_two
    by (simp add: initial_state_def unit_event_def upt_conv_Cons)
qed

subsection \<open>Failure of the generation client\<close>




subsection \<open>Chunker: empty chunks\<close>

text \<open>
  C6: the chunker can return an empty chunk. Sentences are stripped and the empty ones
  are dropped, but the parts of a sentence over the budget, split at a comma or semicolon
  followed by whitespace, are appended as they are. The sample text is a single sentence
  whose count with the prefix is above 60 and which has two separators in a row; the
  chunker returns three chunks, the second of which is empty.
\<close>

theorem split_into_chunks_empty_chunk:
  "sentences_of gapped_sentence = [gapped_sentence] \<and>
   60 < sample_tokenizer (PREFIX @ gapped_sentence) \<and>
   split_into_chunks sample_tokenizer gapped_sentence =
     [ustr ''One two three four five six seven eight nine'', [], ustr ''ten eleven twelve.'']"
proof -
  have "60 < sample_tokenizer (PREFIX @ gapped_sentence)"
    by (simp add: sample_tokenizer_def PREFIX_def gapped_sentence_def ustr_def)
  then have "split_into_chunks sample_tokenizer gapped_sentence =
     [ustr ''One two three four five six seven eight nine'', [], ustr ''ten eleven twelve.'']"
    unfolding split_into_chunks_def sentences_gapped by (simp add: parts_gapped)
  with sentences_gapped \<open>60 < sample_tokenizer (PREFIX @ gapped_sentence)\<close> show ?thesis by blast
qed

subsection \<open>Chunker: greedy packing\<close>

text \<open>
  C7, amended: the chunks are the rendering of a layout of the sentences, in order; each
  item of the layout is either a non-empty group of consecutive sentences whose counts,
  each measured with the prefix, sum to at most 60, rendered as one chunk joined by
  single spaces, or a single sentence whose count is above 60, rendered as its parts. A
  group is followed by another group only when the first sentence of the second would
  have taken the sum of the first above 60. The count of the joined chunk itself is not
  measured by the code; it is at most 60 when the token counter is subadditive.
\<close>

theorem chunks_are_greedy_layout:
  "\<exists>items.
     split_into_chunks tok text = concat (map render items) \<and>
     concat (map sentences_in items) = sentences_of text \<and>
     (\<forall>it \<in> set items. fits tok it) \<and> greedy tok items \<and>
     (subadditive tok \<longrightarrow>
        (\<forall>ss. Packed ss \<in> set items \<longrightarrow> tok (PREFIX @ join_sp ss) \<le> 60))"
proof -
  from pack_layout[of 0 tok "[]" "sentences_of text" "[]"]
  obtain items where items:
    "split_into_chunks tok text = concat (map render items)"
    "concat (map sentences_in items) = sentences_of text"
    "\<forall>it \<in> set items. fits tok it" "greedy tok items"
    unfolding split_into_chunks_def by auto
  have "tok (PREFIX @ join_sp ss) \<le> 60" if s: "subadditive tok" and m: "Packed ss \<in> set items" for ss
  proof -
    from items(3) m have "fits tok (Packed ss)" by blast
    then have "ss \<noteq> []" "tokens_of tok ss \<le> 60" by simp_all
    with joined_le_tokens[OF s this(1)] show ?thesis by simp
  qed
  with items show ?thesis by blast
qed

text \<open>
  Four short sentences with the counter of characters: the first three sum to exactly 60
  and are packed together, the fourth starts a new chunk.
\<close>

theorem chunks_are_greedy_layout_witness:
  "subadditive sample_tokenizer \<and>
   split_into_chunks sample_tokenizer short_sentences =
     [ustr ''Go on. Stop it. Now go.'', ustr ''Then rest.''] \<and>
   (\<exists>items.
      [ustr ''Go on. Stop it. Now go.'', ustr ''Then rest.''] = concat (map render items) \<and>
      concat (map sentences_in items) =
        [ustr ''Go on.'', ustr ''Stop it.'', ustr ''Now go.'', ustr ''Then rest.''] \<and>
      (\<forall>it \<in> set items. fits sample_tokenizer it) \<and> greedy sample_tokenizer items \<and>
      (\<forall>ss. Packed ss \<in> set items \<longrightarrow> sample_tokenizer (PREFIX @ join_sp ss) \<le> 60))"
  using chunks_are_greedy_layout[of sample_tokenizer short_sentences] subadditive_sample
  unfolding chunks_short sentences_short by simp

text \<open>
  With a counter of the characters after the prefix, two sentences of count 30 each are
  packed into one chunk, whose own count is 61.
\<close>

theorem packed_chunk_over_budget:
  "sentences_of long_sentences =
     [ustr ''Aaaaaaaaa bbbbbbbbb ccccccccc.'', ustr ''Ddddddddd eeeeeeeee fffffffff.''] \<and>
   text_tokenizer (PREFIX @ ustr ''Aaaaaaaaa bbbbbbbbb ccccccccc.'') = 30 \<and>
   text_tokenizer (PREFIX @ ustr ''Ddddddddd eeeeeeeee fffffffff.'') = 30 \<and>
   split_into_chunks text_tokenizer long_sentences =
     [ustr ''Aaaaaaaaa bbbbbbbbb ccccccccc. Ddddddddd eeeeeeeee fffffffff.''] \<and>
   text_tokenizer
     (PREFIX @ ustr ''Aaaaaaaaa bbbbbbbbb ccccccccc. Ddddddddd eeeeeeeee fffffffff.'') = 61"
proof -
  have "split_into_chunks text_tokenizer long_sentences =
     [ustr ''Aaaaaaaaa bbbbbbbbb ccccccccc. Ddddddddd eeeeeeeee fffffffff.'']"
    unfolding split_into_chunks_def sentences_long
    by (simp add: text_tokenizer_def PREFIX_def ustr_def SPACE_def)
  with sentences_long show ?thesis
    by (simp add: text_tokenizer_def PREFIX_def ustr_def)
qed

subsection \<open>Version streams\<close>

text \<open>
  C8: when every answer of the client holds exactly four texts, a run with pass count
  \<open>n\<close> that succeeds sets the final versions to exactly four streams, and stream \<open>v\<close> is
  the join with single spaces, in the order of the chunks, of the post-processed
  candidate \<open>v\<close> of the last pass of every chunk. A run succeeds when \<open>n\<close> is positive and
  every one of its calls is answered.
\<close>

theorem version_streams:
  assumes "determine_passes st = Inr n"
    and "\<forall>u p d. cl u p (num_beams (run_params_of tok st input n))
                 (repetition_penalty (run_params_of tok st input n)) = Inr d \<longrightarrow> length d = 4"
  shows "(fst (process_body cl tok st input w) = Inr () \<longrightarrow>
            all_outputs (process_text py cl tok st input w) =
              map (\<lambda>v. join_sp
                     (map (\<lambda>i. candidates cl st (run_params_of tok st input n) (i * nat n + nat n - 1)
                                  (new_prompts w (process_text py cl tok st input w) !
                                     (i * nat n + nat n - 1)) ! v)
                        [0..<length (split_into_chunks tok input)]))
                [0..<4]) \<and>
         (0 < n \<and>
          (\<forall>u p. u < length (split_into_chunks tok input) * nat n \<longrightarrow>
             (\<exists>d. cl u p (num_beams (run_params_of tok st input n))
                     (repetition_penalty (run_params_of tok st input n)) = Inr d)) \<longrightarrow>
            fst (process_body cl tok st input w) = Inr ())"
proof (intro conjI impI)
  assume "fst (process_body cl tok st input w) = Inr ()"
  from run_versions[OF assms(1) this assms(2)]
  show "all_outputs (process_text py cl tok st input w) =
              map (\<lambda>v. join_sp
                     (map (\<lambda>i. candidates cl st (run_params_of tok st input n) (i * nat n + nat n - 1)
                                  (new_prompts w (process_text py cl tok st input w) !
                                     (i * nat n + nat n - 1)) ! v)
                        [0..<length (split_into_chunks tok input)]))
                [0..<4]" .
next
  assume a: "0 < n \<and>
          (\<forall>u p. u < length (split_into_chunks tok input) * nat n \<longrightarrow>
             (\<exists>d. cl u p (num_beams (run_params_of tok st input n))
                     (repetition_penalty (run_params_of tok st input n)) = Inr d))"
  have "answers cl (run_params_of tok st input n) (length (split_into_chunks tok input) * nat n)"
    unfolding answers_def
  proof (intro allI impI)
    fix u p assume "u < length (split_into_chunks tok input) * nat n"
    with a obtain d where d: "cl u p (num_beams (run_params_of tok st input n))
                     (repetition_penalty (run_params_of tok st input n)) = Inr d" by blast
    with assms(2) have "length d = 4" by blast
    with d show "\<exists>d. cl u p (num_beams (run_params_of tok st input n))
                     (repetition_penalty (run_params_of tok st input n)) = Inr d \<and> d \<noteq> [] \<and> length d \<le> 4"
      by auto
  qed
  with a run_succeeds[OF assms(1), of cl tok input w]
  show "fst (process_body cl tok st input w) = Inr ()" by blast
qed

text \<open>
  Two chunks at strength Maximum with the client that always answers the same four
  texts, two of them with a dash: the four streams.
\<close>

theorem version_streams_witness:
  "all_outputs (process_text sample_texts dash_client sample_tokenizer maximum_settings two_sentences
                  initial_state) =
     [ustr ''A, B. A, B.'', ustr ''A, B. A, B.'', ustr ''x x'', ustr ''y y'']"
proof -
  have four: "\<forall>u p d. dash_client u p
       (num_beams (run_params_of sample_tokenizer maximum_settings two_sentences 2))
       (repetition_penalty (run_params_of sample_tokenizer maximum_settings two_sentences 2)) = Inr d
       \<longrightarrow> length d = 4"
    by (auto simp: dash_client_def)
  note t = version_streams[where cl=dash_client and tok=sample_tokenizer and st=maximum_settings
      and input=two_sentences and n=2 and w=initial_state and py=sample_texts, OF passes_maximum four]
  have "\<forall>u p. u < length (split_into_chunks sample_tokenizer two_sentences) * nat 2 \<longrightarrow>
             (\<exists>d. dash_client u p
                (num_beams (run_params_of sample_tokenizer maximum_settings two_sentences 2))
                (repetition_penalty (run_params_of sample_tokenizer maximum_settings two_sentences 2)) =
                Inr d)"
    by (simp add: dash_client_def)
  with t have ok: "fst (process_body dash_client sample_tokenizer maximum_settings two_sentences
                initial_state) = Inr ()" by simp
  with t have "all_outputs (process_text sample_texts dash_client sample_tokenizer maximum_settings
                  two_sentences initial_state) =
              map (\<lambda>v. join_sp
                     (map (\<lambda>i. candidates dash_client maximum_settings
                                  (run_params_of sample_tokenizer maximum_settings two_sentences 2)
                                  (i * nat 2 + nat 2 - 1)
                                  (new_prompts initial_state (process_text sample_texts dash_client
                                      sample_tokenizer maximum_settings two_sentences initial_state) !
                                     (i * nat 2 + nat 2 - 1)) ! v)
                        [0..<length (split_into_chunks sample_tokenizer two_sentences)]))
                [0..<4]"
    by blast
  then show ?thesis
    by (simp add: candidates_dash chunks_two upt_conv_Cons SPACE_def ustr_def)
qed

subsection \<open>The two forms of the export\<close>

text \<open>
  C9, amended: the structured export holds the timestamp, the whole settings, the record
  of every chunk (its original text and the untruncated candidates of every pass) and the
  final outputs, as they are. From the text report one reads back, when none of the texts
  shown contains a line feed: the timestamp; four of the settings, namely the strength,
  the custom pass count, whether custom passes are used and whether dashes are removed;
  the candidates of every chunk and pass, each cut to its first 100 characters; and the
  final outputs in full. The export of a state with intermediate outputs writes the
  structured form when the format setting is \<^verbatim>\<open>json\<close> and the text report otherwise. The
  remaining settings and the original text of the chunks are not in the text report.
\<close>

theorem flat_export_content:
  assumes "one_line timestamp" and "one_line (strength st)"
    and "\<forall>cd \<in> set (intermediate_outputs w). \<forall>p \<in> set (outputs cd). \<forall>c \<in> set p.
           one_line (take 100 c)"
    and "\<forall>f \<in> set (all_outputs w). one_line f"
  shows "read_flat (txt_file timestamp st w) =
           \<lparr>fc_timestamp = timestamp, fc_strength = strength st,
            fc_custom_passes = custom_passes st,
            fc_use_custom_passes = use_custom_passes st,
            fc_remove_dashes = remove_dashes st,
            fc_candidates =
              map (\<lambda>cd. map (map (take 100)) (outputs cd)) (intermediate_outputs w),
            fc_final_outputs = all_outputs w\<rparr> \<and>
         json_export timestamp st w =
           \<lparr>js_timestamp = timestamp, js_settings = st,
            js_intermediate_outputs = intermediate_outputs w,
            js_final_outputs = all_outputs w\<rparr> \<and>
         (intermediate_outputs w \<noteq> [] \<longrightarrow>
            save_intermediate_outputs timestamp True st w =
              Some (if intermediate_format st = ustr ''json''
                    then Json_file (json_export timestamp st w)
                    else Txt_file (txt_export timestamp st w)))"
  using read_flat_lines[OF assms]
  by (simp add: json_export_def save_intermediate_outputs_def)

text \<open>
  The sample export under the default settings: what is read back from the text report,
  with the candidate of 120 characters cut to 100, and the structured document.
\<close>

theorem flat_export_content_witness:
  "read_flat (txt_file sample_timestamp default_settings (sample_store (ustr ''Hello there.''))) =
     \<lparr>fc_timestamp = ustr ''20240101_120000'', fc_strength = ustr ''High'',
      fc_custom_passes = 1, fc_use_custom_passes = False, fc_remove_dashes = True,
      fc_candidates =
        [[[ustr ''Hi there.'', ustr ''Hello, you.'', replicate 100 97, ustr ''Hey.'']]],
      fc_final_outputs =
        [ustr ''Hi there.'', ustr ''Hello, you.'', replicate 120 97, ustr ''Hey.'']\<rparr> \<and>
   save_intermediate_outputs sample_timestamp True default_settings
       (sample_store (ustr ''Hello there.'')) =
     Some (Json_file
       \<lparr>js_timestamp = ustr ''20240101_120000'', js_settings = default_settings,
        js_intermediate_outputs =
          [\<lparr>original = ustr ''Hello there.'',
            outputs =
              [[ustr ''Hi there.'', ustr ''Hello, you.'', replicate 120 97, ustr ''Hey.'']]\<rparr>],
        js_final_outputs =
          [ustr ''Hi there.'', ustr ''Hello, you.'', replicate 120 97, ustr ''Hey.'']\<rparr>)"
proof -
  have 1: "one_line sample_timestamp"
    by (simp add: one_line_def sample_timestamp_def ustr_def)
  have 2: "one_line (strength default_settings)"
    by (simp add: one_line_def default_settings_def ustr_def)
  have 3: "\<forall>cd \<in> set (intermediate_outputs (sample_store (ustr ''Hello there.''))).
             \<forall>p \<in> set (outputs cd). \<forall>c \<in> set p. one_line (take 100 c)"
    by (simp add: one_line_def sample_store_def ustr_def)
  have 4: "\<forall>f \<in> set (all_outputs (sample_store (ustr ''Hello there.''))). one_line f"
    by (simp add: one_line_def sample_store_def ustr_def)
  from flat_export_content[OF 1 2 3 4] show ?thesis
    by (simp add: sample_store_def sample_timestamp_def default_settings_def json_export_def
          ustr_def)
qed

text \<open>
  Two exports that differ in the setting for saving intermediate outputs and in the
  original text of the chunk have the same text report and different structured
  documents.
\<close>

theorem flat_export_omits_content:
  "txt_file sample_timestamp (update_intermediate False default_settings)
       (sample_store (ustr ''Hello there.'')) =
     txt_file sample_timestamp default_settings (sample_store (ustr ''Good morning.'')) \<and>
   js_settings (json_export sample_timestamp (update_intermediate False default_settings)
       (sample_store (ustr ''Hello there.''))) \<noteq>
     js_settings (json_export sample_timestamp default_settings
       (sample_store (ustr ''Good morning.''))) \<and>
   js_intermediate_outputs (json_export sample_timestamp (update_intermediate False default_settings)
       (sample_store (ustr ''Hello there.''))) \<noteq>
     js_intermediate_outputs (json_export sample_timestamp default_settings
       (sample_store (ustr ''Good morning.'')))"
  by (simp add: txt_file_def txt_export_def json_export_def update_intermediate_def
        default_settings_def sample_store_def ustr_def)

subsection \<open>Pass count of a run started from the interface\<close>

text \<open>
  C10: for settings reachable through the callbacks of the interface the pass count is
  defined and at least 1. Hence a run never ends with the error of reading the candidates
  of a chunk before any pass has set them; every chunk that is reached is sent to the
  client (the first prompt of its group is the prefix followed by the chunk, and a run on
  a text with a chunk makes at least one call); a run that succeeds makes exactly
  \<open>chunks * n\<close> calls; and a run succeeds when the client answers every one of these calls.
\<close>

theorem passes_at_least_one:
  assumes "reachable st"
  shows "\<exists>n. determine_passes st = Inr n \<and> 1 \<le> n \<and>
           fst (process_body cl tok st input w) \<noteq> Inl UnboundLocalError \<and>
           (split_into_chunks tok input \<noteq> [] \<longrightarrow>
              new_prompts w (process_text py cl tok st input w) \<noteq> []) \<and>
           (\<forall>i. i * nat n < length (new_prompts w (process_text py cl tok st input w)) \<longrightarrow>
              new_prompts w (process_text py cl tok st input w) ! (i * nat n) =
                PREFIX @ split_into_chunks tok input ! i) \<and>
           (fst (process_body cl tok st input w) = Inr () \<longrightarrow>
              length (new_prompts w (process_text py cl tok st input w)) =
                length (split_into_chunks tok input) * nat n) \<and>
           (answers cl (run_params_of tok st input n) (length (split_into_chunks tok input) * nat n) \<longrightarrow>
              fst (process_body cl tok st input w) = Inr ())"
proof -
  from reachable_passes[OF assms] obtain n where n: "determine_passes st = Inr n" "1 \<le> n"
    by blast
  then have pos: "0 < n" by simp
  from run_never_unbound[OF n(1) pos, of cl tok input w py]
    run_prompts[OF n(1), of w py cl tok input]
    run_success[OF n(1), of cl tok input w py]
    run_succeeds[OF n(1) pos, of cl tok input w] n
  show ?thesis by blast
qed

text \<open>
  The digit 3 typed into the passes entry and the custom-passes switch turned on: the
  settings are reachable, the pass count is 3, and a run on two chunks succeeds with six
  calls, the first and the fourth of them on the chunks themselves.
\<close>

theorem passes_at_least_one_witness:
  "reachable (custom_settings ''3'') \<and>
   determine_passes (custom_settings ''3'') = Inr 3 \<and>
   fst (process_body sample_client sample_tokenizer (custom_settings ''3'') two_sentences
          initial_state) = Inr () \<and>
   length (new_prompts initial_state
             (process_text sample_texts sample_client sample_tokenizer (custom_settings ''3'')
                two_sentences initial_state)) = 6 \<and>
   new_prompts initial_state
     (process_text sample_texts sample_client sample_tokenizer (custom_settings ''3'')
        two_sentences initial_state) ! 0 = PREFIX @ ustr ''The quick brown fox jumps over it.'' \<and>
   new_prompts initial_state
     (process_text sample_texts sample_client sample_tokenizer (custom_settings ''3'')
        two_sentences initial_state) ! 3 = PREFIX @ ustr ''A lazy dog sleeps under the tree.''"
proof -
  let ?ps = "new_prompts initial_state
     (process_text sample_texts sample_client sample_tokenizer (custom_settings ''3'')
        two_sentences initial_state)"
  have r: "reachable (custom_settings ''3'')"
    unfolding custom_settings_def by (intro reach_toggle reach_passes reach_init)
  from passes_at_least_one[OF r, of sample_client sample_tokenizer two_sentences initial_state
      sample_texts]
  obtain n where n: "determine_passes (custom_settings ''3'') = Inr n"
    and first: "\<forall>i. i * nat n < length ?ps \<longrightarrow>
                  ?ps ! (i * nat n) = PREFIX @ split_into_chunks sample_tokenizer two_sentences ! i"
    and len: "fst (process_body sample_client sample_tokenizer (custom_settings ''3'') two_sentences
                initial_state) = Inr () \<longrightarrow>
              length ?ps = length (split_into_chunks sample_tokenizer two_sentences) * nat n"
    and ok: "answers sample_client (run_params_of sample_tokenizer (custom_settings ''3'')
                two_sentences n) (length (split_into_chunks sample_tokenizer two_sentences) * nat n) \<longrightarrow>
             fst (process_body sample_client sample_tokenizer (custom_settings ''3'') two_sentences
                initial_state) = Inr ()"
    by blast
  from n passes_custom3 have n3: "n = 3" by simp
  from ok sample_client_answers
  have s: "fst (process_body sample_client sample_tokenizer (custom_settings ''3'') two_sentences
                initial_state) = Inr ()" by blast
  with len have l: "length ?ps = 6" by (simp add: n3 chunks_two)
  from first[rule_format, of 0] l have p0: "?ps ! 0 = PREFIX @ ustr ''The quick brown fox jumps over it.''"
    by (simp add: n3 chunks_two)
  from first[rule_format, of 1] l have p3: "?ps ! 3 = PREFIX @ ustr ''A lazy dog sleeps under the tree.''"
    by (simp add: n3 chunks_two)
  from r passes_custom3 s l p0 p3 show ?thesis by blast
qed

end
